theory Spec2Isabelle
  imports Main "HOL-Library.Word"
begin

unbundle bit_operations_syntax

section \<open>Data model of main.c\<close>

text \<open>
  The program keeps its model in global variables. They are gathered in one record that
  every function takes and returns.

  \<^item> \<open>tokens\<close> holds the entries \<open>tokens[0 .. tokens_size - 1]\<close>; its length is
    \<open>tokens_size\<close>. A \<open>char *\<close> into the book is modelled by the spelling it points to:
    \<open>strtok_r\<close> terminates a token before it returns it and never writes into it again.
  \<^item> \<open>hash_index\<close> is the array of \<open>HASH_SIZE\<close> ints, \<open>-1\<close> for an empty slot.
  \<^item> \<open>succs\<close> holds, for each id, the entries \<open>succs[id][0 .. succs_sizes[id] - 1]\<close>,
    so \<open>succs_sizes[id]\<close> is the length of \<open>succs ! id\<close>; \<open>succs_caps\<close> is the array of
    capacities.

  Allocation (\<open>malloc\<close>, \<open>realloc\<close>) is taken to succeed. A read outside the initialised
  part of an array is undefined behaviour in C; the model stops with \<open>Out_of_bounds\<close>
  there. \<open>exit(1)\<close> on a full hash table is the error \<open>Hash_table_full\<close>.
\<close>

datatype error = Hash_table_full | Out_of_bounds

definition HASH_SIZE :: nat where
  "HASH_SIZE = 524287"

definition INIT_SUCC_CAP :: nat where
  "INIT_SUCC_CAP = 4"

record state =
  tokens :: "string list"
  tokens_cap :: nat
  hash_index :: "nat \<Rightarrow> int"
  succs :: "string list list"
  succs_caps :: "nat list"

definition tokens_size :: "state \<Rightarrow> nat" where
  "tokens_size st = length (tokens st)"

text \<open>\<open>ensure_tokens_capacity\<close>: doubles the capacity of the four parallel arrays
  (32768 the first time) when \<open>tokens_size\<close> has reached it.\<close>

definition ensure_tokens_capacity :: "state \<Rightarrow> state" where
  "ensure_tokens_capacity st =
     (if tokens_size st \<ge> tokens_cap st
      then st\<lparr>tokens_cap := (if tokens_cap st \<noteq> 0 then tokens_cap st * 2 else 32768)\<rparr>
      else st)"

text \<open>\<open>hash_str\<close>: the djb2 variant on \<open>unsigned long\<close> (64 bits), one step of the
  \<open>while\<close> loop per byte of the string.\<close>

fun hash_str_loop :: "64 word \<Rightarrow> string \<Rightarrow> 64 word" where
  "hash_str_loop h [] = h"
| "hash_str_loop h (c # s) = hash_str_loop ((push_bit 5 h + h) XOR of_char c) s"

definition hash_str :: "string \<Rightarrow> 64 word" where
  "hash_str s = hash_str_loop 5381 s"

text \<open>\<open>hash_init\<close> followed by the first \<open>ensure_tokens_capacity\<close>, as \<open>main\<close> does
  before tokenizing.\<close>

definition hash_init :: "state" where
  "hash_init = \<lparr>tokens = [], tokens_cap = 0, hash_index = (\<lambda>_. -1), succs = [], succs_caps = []\<rparr>"

definition init_state :: "state" where
  "init_state = ensure_tokens_capacity hash_init"

text \<open>\<open>hash_find\<close>: linear probing from \<open>hash_str(s) % HASH_SIZE\<close>; the loop is the
  function of the probe counter.\<close>

function hash_find_loop :: "state \<Rightarrow> string \<Rightarrow> nat \<Rightarrow> nat \<Rightarrow> error + int" where
  "hash_find_loop st s h probe =
     (if probe < HASH_SIZE then
        (let i = (h + probe) mod HASH_SIZE; id' = hash_index st i in
         if id' = -1 then Inr (-1)
         else if id' < 0 \<or> nat id' \<ge> tokens_size st then Inl Out_of_bounds
         else if tokens st ! nat id' = s then Inr id'
         else hash_find_loop st s h (probe + 1))
      else Inr (-1))"
  by pat_completeness auto
termination
  by (relation "measure (\<lambda>(st, s, h, probe). HASH_SIZE - probe)") auto

declare hash_find_loop.simps [simp del]

definition hash_find :: "state \<Rightarrow> string \<Rightarrow> error + int" where
  "hash_find st s = hash_find_loop st s (unat (hash_str s) mod HASH_SIZE) 0"

text \<open>\<open>hash_insert\<close>: the first empty slot on the probe path takes the id; a full table
  ends the process.\<close>

function hash_insert_loop :: "state \<Rightarrow> int \<Rightarrow> nat \<Rightarrow> nat \<Rightarrow> error + state" where
  "hash_insert_loop st id' h probe =
     (if probe < HASH_SIZE then
        (let i = (h + probe) mod HASH_SIZE in
         if hash_index st i = -1 then Inr (st\<lparr>hash_index := (hash_index st)(i := id')\<rparr>)
         else hash_insert_loop st id' h (probe + 1))
      else Inl Hash_table_full)"
  by pat_completeness auto
termination
  by (relation "measure (\<lambda>(st, id', h, probe). HASH_SIZE - probe)") auto

declare hash_insert_loop.simps [simp del]

definition hash_insert :: "state \<Rightarrow> string \<Rightarrow> int \<Rightarrow> error + state" where
  "hash_insert st s id' = hash_insert_loop st id' (unat (hash_str s) mod HASH_SIZE) 0"

text \<open>\<open>token_id\<close>: the id of a spelling, a new one (the next index) when
  \<open>hash_find\<close> does not find it.\<close>

definition token_id :: "state \<Rightarrow> string \<Rightarrow> error + (nat \<times> state)" where
  "token_id st tok =
     (case hash_find st tok of
        Inl e \<Rightarrow> Inl e
      | Inr found \<Rightarrow>
          if found \<ge> 0 then Inr (nat found, st)
          else
            (let st1 = ensure_tokens_capacity st;
                 id' = tokens_size st1;
                 st2 = st1\<lparr>tokens := tokens st1 @ [tok],
                           succs := succs st1 @ [[]],
                           succs_caps := succs_caps st1 @ [0]\<rparr>
             in case hash_insert st2 tok (int id') of
                  Inl e \<Rightarrow> Inl e
                | Inr st3 \<Rightarrow> Inr (id', st3)))"

text \<open>\<open>append_to_succs\<close>: the id of \<open>prev\<close> (interning it when new), room for one more
  entry (4 entries at first, then doubled when full), and \<open>curr\<close> stored at the end.\<close>

definition append_to_succs :: "state \<Rightarrow> string \<Rightarrow> string \<Rightarrow> error + state" where
  "append_to_succs st prev curr' =
     (case token_id st prev of
        Inl e \<Rightarrow> Inl e
      | Inr (pid, st1) \<Rightarrow>
          if pid \<ge> length (succs_caps st1) \<or> pid \<ge> length (succs st1) then Inl Out_of_bounds
          else
            (let st2 =
                   (if succs_caps st1 ! pid = 0
                    then st1\<lparr>succs_caps := (succs_caps st1)[pid := INIT_SUCC_CAP]\<rparr>
                    else if length (succs st1 ! pid) \<ge> succs_caps st1 ! pid
                    then st1\<lparr>succs_caps := (succs_caps st1)[pid := succs_caps st1 ! pid * 2]\<rparr>
                    else st1)
             in Inr (st2\<lparr>succs := (succs st2)[pid := succs st2 ! pid @ [curr']]\<rparr>)))"

section \<open>Tokenization\<close>

text \<open>
  \<open>strtok_r\<close> of the C library, on the part of the buffer that is left (the first
  call gets the buffer, the later ones the saved pointer): it skips the leading delimiters,
  returns no token at the end of the buffer, and otherwise the bytes up to the next
  delimiter, which it overwrites with the terminator; the saved pointer is the byte after.
\<close>

definition strtok_r :: "string \<Rightarrow> string \<Rightarrow> (string \<times> string) option" where
  "strtok_r delimiters s =
     (let s1 = dropWhile (\<lambda>c. c \<in> set delimiters) s in
      if s1 = [] then None
      else Some (takeWhile (\<lambda>c. c \<notin> set delimiters) s1,
                 drop 1 (dropWhile (\<lambda>c. c \<notin> set delimiters) s1)))"

lemma strtok_r_shorter:
  "strtok_r delimiters s = Some (tok, rest) \<Longrightarrow> length rest < length s"
proof -
  assume a: "strtok_r delimiters s = Some (tok, rest)"
  define s1 where "s1 = dropWhile (\<lambda>c. c \<in> set delimiters) s"
  from a have ne: "s1 \<noteq> []" and r: "rest = drop 1 (dropWhile (\<lambda>c. c \<notin> set delimiters) s1)"
    by (auto simp: strtok_r_def s1_def Let_def split: if_splits)
  have "length rest \<le> length s1 - 1"
    unfolding r using length_dropWhile_le [of "\<lambda>c. c \<notin> set delimiters" s1] by simp
  moreover have "length s1 \<le> length s"
    unfolding s1_def by (rule length_dropWhile_le)
  moreover have "0 < length s1" using ne by simp
  ultimately show ?thesis by linarith
qed

text \<open>
  The events of the \<open>while\<close> loop of \<open>tokenize_and_fill_succs\<close>, in the order in which
  they happen: a token returned by \<open>strtok_r\<close>, with the identifier that \<open>token_id\<close>
  returned for it, and a call of \<open>append_to_succs\<close>. The list of events is an observation
  added to the model; the program keeps no such list.
\<close>

datatype event = Yield string nat | Edge string string

function tokenize_loop ::
  "string \<Rightarrow> state \<Rightarrow> string option \<Rightarrow> (string \<times> string) option \<Rightarrow> event list
     \<Rightarrow> error + (state \<times> event list)" where
  "tokenize_loop delimiters st prev None tr = Inr (st, tr)"
| "tokenize_loop delimiters st prev (Some (tok, rest)) tr =
     (case token_id st tok of
        Inl e \<Rightarrow> Inl e
      | Inr (tid, st1) \<Rightarrow>
          (case (case prev of None \<Rightarrow> Inr st1 | Some p \<Rightarrow> append_to_succs st1 p tok) of
             Inl e \<Rightarrow> Inl e
           | Inr st2 \<Rightarrow>
               tokenize_loop delimiters st2 (Some tok) (strtok_r delimiters rest)
                 (tr @ Yield tok tid # (case prev of None \<Rightarrow> [] | Some p \<Rightarrow> [Edge p tok]))))"
  by pat_completeness auto
termination
  by (relation "measure (\<lambda>(delimiters, st, prev, r, tr).
        case r of None \<Rightarrow> 0 | Some (tok, rest) \<Rightarrow> Suc (length rest))")
     (auto split: option.splits dest: strtok_r_shorter)

declare tokenize_loop.simps [simp del]

definition tokenize_and_fill_succs :: "string \<Rightarrow> string \<Rightarrow> state \<Rightarrow> error + (state \<times> event list)" where
  "tokenize_and_fill_succs delimiters str st =
     tokenize_loop delimiters st None (strtok_r delimiters str) []"

section \<open>Sentence generation\<close>

definition last_char :: "string \<Rightarrow> char" where
  "last_char s = (if length s \<noteq> 0 then s ! (length s - 1) else CHR 0x00)"

definition token_ends_a_sentence :: "string \<Rightarrow> bool" where
  "token_ends_a_sentence token =
     (let c = last_char token in c = CHR ''.'' \<or> c = CHR ''?'' \<or> c = CHR ''!'')"

text \<open>\<open>isalpha\<close> and \<open>isupper\<close> of the C locale (the program never calls
  \<open>setlocale\<close>), and the first byte of a C string (its terminator when it is empty).\<close>

definition isupper :: "char \<Rightarrow> bool" where
  "isupper c = (65 \<le> (of_char c :: nat) \<and> (of_char c :: nat) \<le> 90)"

definition isalpha :: "char \<Rightarrow> bool" where
  "isalpha c = (isupper c \<or> (97 \<le> (of_char c :: nat) \<and> (of_char c :: nat) \<le> 122))"

definition first_char :: "string \<Rightarrow> char" where
  "first_char s = (case s of [] \<Rightarrow> CHR 0x00 | c # _ \<Rightarrow> c)"

text \<open>
  \<open>rand()\<close> is modelled by the sequence of the values it returns: \<open>rnd k\<close> is the value of
  call number \<open>k\<close>, and the functions thread the number of calls made so far.

  \<open>random_token_id_that_starts_a_sentence\<close>: the loop of random picks, which gives an id
  or gives up, then the ascending scan.
\<close>

function random_pick_loop :: "(nat \<Rightarrow> nat) \<Rightarrow> state \<Rightarrow> nat \<Rightarrow> nat \<Rightarrow> nat option \<times> nat" where
  "random_pick_loop rnd st k attempts =
     (if attempts < 10000 then
        (if tokens_size st = 0 then (None, k)
         else
           (let i = rnd k mod tokens_size st; c0 = first_char (tokens st ! i) in
            if isalpha c0 \<and> isupper c0 then (Some i, k + 1)
            else random_pick_loop rnd st (k + 1) (attempts + 1)))
      else (None, k))"
  by pat_completeness auto
termination
  by (relation "measure (\<lambda>(rnd, st, k, attempts). 10000 - attempts)") auto

declare random_pick_loop.simps [simp del]

function first_capitalized_loop :: "state \<Rightarrow> nat \<Rightarrow> nat" where
  "first_capitalized_loop st i =
     (if i < tokens_size st then
        (let c0 = first_char (tokens st ! i) in
         if isalpha c0 \<and> isupper c0 then i
         else first_capitalized_loop st (i + 1))
      else 0)"
  by pat_completeness auto
termination
  by (relation "measure (\<lambda>(st, i). tokens_size st - i)") auto

declare first_capitalized_loop.simps [simp del]

definition random_token_id_that_starts_a_sentence :: "(nat \<Rightarrow> nat) \<Rightarrow> nat \<Rightarrow> state \<Rightarrow> nat \<times> nat" where
  "random_token_id_that_starts_a_sentence rnd k st =
     (case random_pick_loop rnd st k 0 of
        (Some i, k') \<Rightarrow> (i, k')
      | (None, k') \<Rightarrow> (first_capitalized_loop st 0, k'))"

text \<open>
  What \<open>generate_sentence\<close> leaves behind: the string in the caller's buffer, the model,
  and the number of calls of \<open>rand()\<close> made. Two observations are added: the number of
  times the body of the \<open>while\<close> loop was entered, and the way the walk ended (the C
  function returns only the buffer's address).
\<close>

datatype outcome = Terminal | Dead_end | Size_bound | Exited error

record walk =
  w_out :: string
  w_state :: state
  w_rand :: nat
  w_steps :: nat
  w_outcome :: outcome

function walk_loop ::
  "(nat \<Rightarrow> nat) \<Rightarrow> nat \<Rightarrow> state \<Rightarrow> nat \<Rightarrow> string \<Rightarrow> string \<Rightarrow> nat \<Rightarrow> walk" where
  "walk_loop rnd out_size st k out token steps =
     (if length out + 2 < out_size then
        (case token_id st token of
           Inl e \<Rightarrow>
             \<lparr>w_out = out, w_state = st, w_rand = k, w_steps = steps + 1, w_outcome = Exited e\<rparr>
         | Inr (curr_id, st1) \<Rightarrow>
             if curr_id \<ge> length (succs st1) then
               \<lparr>w_out = out, w_state = st1, w_rand = k, w_steps = steps + 1,
                w_outcome = Exited Out_of_bounds\<rparr>
             else
               (let nsucc = length (succs st1 ! curr_id) in
                if nsucc = 0 then
                  \<lparr>w_out = out, w_state = st1, w_rand = k, w_steps = steps + 1,
                   w_outcome = Dead_end\<rparr>
                else
                  (let next' = succs st1 ! curr_id ! (rnd k mod nsucc);
                       need = length out + 1 + length next' + 1 in
                   if need \<ge> out_size then
                     \<lparr>w_out = out, w_state = st1, w_rand = k + 1, w_steps = steps + 1,
                      w_outcome = Size_bound\<rparr>
                   else if token_ends_a_sentence next' then
                     \<lparr>w_out = out @ '' '' @ next', w_state = st1, w_rand = k + 1,
                      w_steps = steps + 1, w_outcome = Terminal\<rparr>
                   else walk_loop rnd out_size st1 (k + 1) (out @ '' '' @ next') next' (steps + 1))))
      else \<lparr>w_out = out, w_state = st, w_rand = k, w_steps = steps, w_outcome = Size_bound\<rparr>)"
  by pat_completeness auto
termination
  by (relation "measure (\<lambda>(rnd, out_size, st, k, out, token, steps). out_size - length out)") auto

declare walk_loop.simps [simp del]

text \<open>\<open>generate_sentence\<close>; \<open>out\<close> is what the buffer holds at the call, untouched when
  \<open>out_size\<close> is 0. \<open>strncat\<close> copies at most \<open>out_size - 1\<close> bytes of the start token.\<close>

definition generate_sentence :: "(nat \<Rightarrow> nat) \<Rightarrow> nat \<Rightarrow> state \<Rightarrow> string \<Rightarrow> nat \<Rightarrow> walk" where
  "generate_sentence rnd k st out out_size =
     (if out_size = 0 then
        \<lparr>w_out = out, w_state = st, w_rand = k, w_steps = 0, w_outcome = Size_bound\<rparr>
      else
        (case random_token_id_that_starts_a_sentence rnd k st of
           (start_id, k1) \<Rightarrow>
             (let token = (if tokens_size st \<noteq> 0 then tokens st ! start_id else '''');
                  out1 = take (out_size - 1) token in
              if token_ends_a_sentence token then
                \<lparr>w_out = out1, w_state = st, w_rand = k1, w_steps = 0, w_outcome = Terminal\<rparr>
              else walk_loop rnd out_size st k1 out1 token 0)))"

text \<open>\<open>ends_with_char\<close>, the test that \<open>main\<close> applies to the buffer after each call of
  \<open>generate_sentence\<close>.\<close>

definition ends_with_char :: "string \<Rightarrow> char \<Rightarrow> bool" where
  "ends_with_char s c = (last_char s = c)"

section \<open>Notions used in the statements\<close>

subsection \<open>The invariant of the model\<close>

text \<open>
  \<open>slot s p\<close> is the index that \<open>hash_find\<close> and \<open>hash_insert\<close> look at in probe \<open>p\<close> for the
  spelling \<open>s\<close>. The invariant \<open>wf_model\<close> says what the arrays look like after any number
  of calls of \<open>token_id\<close> and \<open>append_to_succs\<close> from the initial model:
  \<^item> the spellings are distinct, and the parallel arrays have \<open>tokens_size\<close> entries;
  \<^item> every slot of the hash table is empty or holds an identifier in use;
  \<^item> every identifier sits on the probe path of its spelling, with no empty slot before it;
  \<^item> a successor list is empty with capacity 0, or non-empty, within its capacity, and the
    capacity is 4 doubled some number of times.
  It holds for the initial model (\<open>wf_model_init\<close>) and is kept by \<open>token_id\<close>
  (\<open>token_id_wf\<close>) and by \<open>append_to_succs\<close> (\<open>append_to_succs_effect\<close>).
\<close>

definition slot :: "string \<Rightarrow> nat \<Rightarrow> nat" where
  "slot s p = (unat (hash_str s) mod HASH_SIZE + p) mod HASH_SIZE"

definition slots_valid :: "state \<Rightarrow> bool" where
  "slots_valid st \<longleftrightarrow>
     (\<forall>i. hash_index st i = -1 \<or> (0 \<le> hash_index st i \<and> nat (hash_index st i) < length (tokens st)))"

definition reachable_slot :: "state \<Rightarrow> nat \<Rightarrow> bool" where
  "reachable_slot st n \<longleftrightarrow>
     (\<exists>p. p < HASH_SIZE \<and> hash_index st (slot (tokens st ! n) p) = int n \<and>
          (\<forall>q. q < p \<longrightarrow> hash_index st (slot (tokens st ! n) q) \<noteq> -1))"

definition caps_ok :: "state \<Rightarrow> bool" where
  "caps_ok st \<longleftrightarrow>
     (\<forall>n. n < length (succs st) \<longrightarrow>
        (succs st ! n = [] \<and> succs_caps st ! n = 0) \<or>
        (succs st ! n \<noteq> [] \<and> length (succs st ! n) \<le> succs_caps st ! n \<and>
         (\<exists>j. succs_caps st ! n = INIT_SUCC_CAP * 2 ^ j)))"

definition wf_model :: "state \<Rightarrow> bool" where
  "wf_model st \<longleftrightarrow>
     distinct (tokens st) \<and> length (succs st) = length (tokens st) \<and>
     length (succs_caps st) = length (tokens st) \<and>
     slots_valid st \<and> (\<forall>n. n < length (tokens st) \<longrightarrow> reachable_slot st n) \<and> caps_ok st"

text \<open>Every stored successor spelling has an identifier.\<close>

definition closed_succs :: "state \<Rightarrow> bool" where
  "closed_succs st \<longleftrightarrow> (\<forall>l \<in> set (succs st). set l \<subseteq> set (tokens st))"

subsection \<open>Interning and successor lists\<close>

text \<open>The array of spellings after \<open>token_id\<close>, as a function of the array before.\<close>

definition intern :: "string list \<Rightarrow> string \<Rightarrow> string list" where
  "intern ts s = (if s \<in> set ts then ts else ts @ [s])"

text \<open>The distinct elements of a list, each at the place of its first occurrence.\<close>

fun first_occurrences :: "'a list \<Rightarrow> 'a list" where
  "first_occurrences [] = []"
| "first_occurrences (x # xs) = x # filter (\<lambda>y. y \<noteq> x) (first_occurrences xs)"

text \<open>The successor list of a spelling: the list stored under its identifier, empty for a
  spelling that has none.\<close>

definition successors_of :: "state \<Rightarrow> string \<Rightarrow> string list" where
  "successors_of st s = (case map_of (zip (tokens st) (succs st)) s of None \<Rightarrow> [] | Some l \<Rightarrow> l)"

text \<open>The capacity that \<open>append_to_succs\<close> gives a list of capacity \<open>cap\<close> and \<open>len\<close>
  entries before it stores one more entry.\<close>

definition new_cap :: "nat \<Rightarrow> nat \<Rightarrow> nat" where
  "new_cap cap len = (if cap = 0 then INIT_SUCC_CAP else if len \<ge> cap then cap * 2 else cap)"

subsection \<open>Reading the events of a tokenization\<close>

text \<open>The tokens yielded, each with the identifier it got, and the pairs for which
  \<open>append_to_succs\<close> was called, both in the order of the events.\<close>

fun yielded :: "event list \<Rightarrow> (string \<times> nat) list" where
  "yielded [] = []"
| "yielded (Yield s n # es) = (s, n) # yielded es"
| "yielded (Edge a b # es) = yielded es"

fun edges :: "event list \<Rightarrow> (string \<times> string) list" where
  "edges [] = []"
| "edges (Yield s n # es) = edges es"
| "edges (Edge a b # es) = (a, b) # edges es"

text \<open>The consecutive pairs of a token sequence that follows the token \<open>prev\<close> (or
  nothing).\<close>

fun pairs_from :: "string option \<Rightarrow> string list \<Rightarrow> (string \<times> string) list" where
  "pairs_from prev [] = []"
| "pairs_from None (t # ts) = pairs_from (Some t) ts"
| "pairs_from (Some p) (t # ts) = (p, t) # pairs_from (Some t) ts"

subsection \<open>Start selection\<close>

text \<open>The test of the start selection: the first byte is an uppercase letter.\<close>

definition starts_sentence :: "string \<Rightarrow> bool" where
  "starts_sentence s \<longleftrightarrow> isalpha (first_char s) \<and> isupper (first_char s)"

text \<open>
  The start selection as the specification words it. The draws are the first 10000 values
  of \<open>rand()\<close> from call number \<open>k\<close> on, each reduced modulo \<open>tokens_size\<close>; the first draw
  that passes the test is the result, and the calls made are those up to it. When no draw
  passes, the result is the first identifier in ascending order that passes the test, and
  0 when there is none. With an empty vocabulary no draw is made and the result is 0.
\<close>

definition start_selection_spec :: "(nat \<Rightarrow> nat) \<Rightarrow> nat \<Rightarrow> state \<Rightarrow> nat \<times> nat" where
  "start_selection_spec rnd k st =
     (if tokens_size st = 0 then (0, k)
      else
        (let draws = map (\<lambda>j. rnd (k + j) mod tokens_size st) [0..<10000] in
         case find (\<lambda>i. starts_sentence (tokens st ! i)) draws of
           Some i \<Rightarrow>
             (i, k + length (takeWhile (\<lambda>i. \<not> starts_sentence (tokens st ! i)) draws) + 1)
         | None \<Rightarrow>
             (case find (\<lambda>i. starts_sentence (tokens st ! i)) [0..<tokens_size st] of
                Some i \<Rightarrow> i
              | None \<Rightarrow> 0,
              k + 10000)))"

section \<open>Lemmas\<close>

subsection \<open>Probing\<close>

lemma hash_insert_loop_result:
  "hash_insert_loop st n h probe = Inr st' \<Longrightarrow>
     \<exists>p. probe \<le> p \<and> p < HASH_SIZE \<and> hash_index st ((h + p) mod HASH_SIZE) = -1 \<and>
         (\<forall>q. probe \<le> q \<and> q < p \<longrightarrow> hash_index st ((h + q) mod HASH_SIZE) \<noteq> -1) \<and>
         st' = st\<lparr>hash_index := (hash_index st)((h + p) mod HASH_SIZE := n)\<rparr>"
proof (induction st n h probe rule: hash_insert_loop.induct)
  case (1 st n h probe)
  note unf = hash_insert_loop.simps [of st n h probe]
  from "1.prems" have lt: "probe < HASH_SIZE"
    by (simp add: unf split: if_splits)
  show ?case
  proof (cases "hash_index st ((h + probe) mod HASH_SIZE) = -1")
    case True
    with "1.prems" lt have eq: "st' = st\<lparr>hash_index := (hash_index st)((h + probe) mod HASH_SIZE := n)\<rparr>"
      by (simp add: unf Let_def)
    show ?thesis
    proof (intro exI [of _ probe] conjI)
      show "st' = st\<lparr>hash_index := (hash_index st)((h + probe) mod HASH_SIZE := n)\<rparr>" by (rule eq)
    qed (use True lt in simp_all)
  next
    case False
    with "1.prems" lt have "hash_insert_loop st n h (probe + 1) = Inr st'"
      by (simp add: unf Let_def)
    from "1.IH" [OF lt refl False this] obtain p where
      p: "probe + 1 \<le> p" "p < HASH_SIZE" "hash_index st ((h + p) mod HASH_SIZE) = -1"
         "\<forall>q. probe + 1 \<le> q \<and> q < p \<longrightarrow> hash_index st ((h + q) mod HASH_SIZE) \<noteq> -1"
         "st' = st\<lparr>hash_index := (hash_index st)((h + p) mod HASH_SIZE := n)\<rparr>"
      by blast
    have "\<forall>q. probe \<le> q \<and> q < p \<longrightarrow> hash_index st ((h + q) mod HASH_SIZE) \<noteq> -1"
    proof (intro allI impI)
      fix q assume "probe \<le> q \<and> q < p"
      then consider "q = probe" | "probe + 1 \<le> q \<and> q < p" by linarith
      then show "hash_index st ((h + q) mod HASH_SIZE) \<noteq> -1"
        using False p(4) by cases auto
    qed
    then show ?thesis
    proof (intro exI [of _ p] conjI)
      show "st' = st\<lparr>hash_index := (hash_index st)((h + p) mod HASH_SIZE := n)\<rparr>" by (rule p(5))
    qed (use p(1,2,3) in simp_all)
  qed
qed

text \<open>A lookup that ends at an empty slot, repeated after the spelling took that slot.\<close>

lemma hash_find_loop_after_insert:
  assumes "hash_find_loop st s h probe = Inr (-1)"
    and "probe \<le> p" and "p < HASH_SIZE"
    and "hash_index st ((h + p) mod HASH_SIZE) = -1"
    and "\<forall>q. probe \<le> q \<and> q < p \<longrightarrow> hash_index st ((h + q) mod HASH_SIZE) \<noteq> -1"
    and "tokens st' = tokens st @ [s]"
    and "hash_index st' = (hash_index st)((h + p) mod HASH_SIZE := int (length (tokens st)))"
  shows "hash_find_loop st' s h probe = Inr (int (length (tokens st)))"
  using assms
proof (induction st s h probe rule: hash_find_loop.induct)
  case (1 st s h probe)
  have lt: "probe < HASH_SIZE" using "1.prems" by simp
  let ?i = "(h + probe) mod HASH_SIZE"
  note unf = hash_find_loop.simps [of st s h probe]
  note unf' = hash_find_loop.simps [of st' s h probe]
  show ?case
  proof (cases "probe = p")
    case True
    have "hash_index st' ?i = int (length (tokens st))" using "1.prems"(7) True by simp
    then show ?thesis
      using "1.prems"(6) lt by (simp add: unf' Let_def tokens_size_def)
  next
    case False
    then have ne: "hash_index st ?i \<noteq> -1" using "1.prems" by simp
    with "1.prems"(4) have neq: "?i \<noteq> (h + p) mod HASH_SIZE" by auto
    from "1.prems"(1) lt ne have valid: "\<not> (hash_index st ?i < 0 \<or> nat (hash_index st ?i) \<ge> tokens_size st)"
      and diff: "tokens st ! nat (hash_index st ?i) \<noteq> s"
      and rec: "hash_find_loop st s h (probe + 1) = Inr (-1)"
      by (simp_all add: unf Let_def split: if_splits)
    have ih: "hash_find_loop st' s h (probe + 1) = Inr (int (length (tokens st)))"
      using "1.IH" [OF lt refl refl ne valid diff rec] "1.prems" False by simp
    have same: "hash_index st' ?i = hash_index st ?i" using "1.prems"(7) neq by simp
    show ?thesis
      using lt ne valid diff ih same "1.prems"(6)
      by (simp add: unf' Let_def tokens_size_def nth_append)
  qed
qed

lemma hash_find_loop_range:
  "hash_find_loop st s h probe = Inr found \<Longrightarrow>
     found = -1 \<or> (0 \<le> found \<and> nat found < length (tokens st) \<and> tokens st ! nat found = s)"
proof (induction st s h probe rule: hash_find_loop.induct)
  case (1 st s h probe)
  note unf = hash_find_loop.simps [of st s h probe]
  show ?case
  proof (cases "probe < HASH_SIZE \<and> hash_index st ((h + probe) mod HASH_SIZE) \<noteq> -1 \<and>
      \<not> (hash_index st ((h + probe) mod HASH_SIZE) < 0 \<or>
         nat (hash_index st ((h + probe) mod HASH_SIZE)) \<ge> tokens_size st) \<and>
      tokens st ! nat (hash_index st ((h + probe) mod HASH_SIZE)) \<noteq> s")
    case True
    with "1.prems" have "hash_find_loop st s h (probe + 1) = Inr found"
      by (simp add: unf Let_def)
    with "1.IH" True show ?thesis by blast
  next
    case False
    with "1.prems" show ?thesis
      by (auto simp: unf Let_def tokens_size_def split: if_splits)
  qed
qed

lemma token_id_found:
  "hash_find st tok = Inr found \<Longrightarrow> 0 \<le> found \<Longrightarrow> token_id st tok = Inr (nat found, st)"
  by (simp add: token_id_def)

lemma ensure_tokens_capacity_fields [simp]:
  "tokens (ensure_tokens_capacity st) = tokens st"
  "succs (ensure_tokens_capacity st) = succs st"
  "succs_caps (ensure_tokens_capacity st) = succs_caps st"
  "hash_index (ensure_tokens_capacity st) = hash_index st"
  "tokens_size (ensure_tokens_capacity st) = tokens_size st"
  by (simp_all add: ensure_tokens_capacity_def tokens_size_def)

lemma token_id_not_found:
  assumes "hash_find st tok = Inr found" "\<not> 0 \<le> found"
  shows "token_id st tok =
     (case hash_insert ((ensure_tokens_capacity st)\<lparr>tokens := tokens st @ [tok],
              succs := succs st @ [[]], succs_caps := succs_caps st @ [0]\<rparr>) tok (int (length (tokens st))) of
        Inl e \<Rightarrow> Inl e
      | Inr st3 \<Rightarrow> Inr (length (tokens st), st3))"
  using assms by (simp add: token_id_def Let_def tokens_size_def cong: sum.case_cong)

lemma token_id_new:
  assumes "hash_find st tok = Inr found" "\<not> 0 \<le> found" "token_id st tok = Inr (n, st')"
  shows "n = length (tokens st) \<and> tokens st' = tokens st @ [tok] \<and> succs st' = succs st @ [[]] \<and>
         succs_caps st' = succs_caps st @ [0] \<and> hash_find st' tok = Inr (int n) \<and>
         (\<exists>p < HASH_SIZE. hash_index st ((unat (hash_str tok) mod HASH_SIZE + p) mod HASH_SIZE) = -1 \<and>
           (\<forall>q < p. hash_index st ((unat (hash_str tok) mod HASH_SIZE + q) mod HASH_SIZE) \<noteq> -1) \<and>
           hash_index st' = (hash_index st)((unat (hash_str tok) mod HASH_SIZE + p) mod HASH_SIZE := int n))"
proof -
  let ?h = "unat (hash_str tok) mod HASH_SIZE"
  define st2 where "st2 = (ensure_tokens_capacity st)\<lparr>tokens := tokens st @ [tok],
      succs := succs st @ [[]], succs_caps := succs_caps st @ [0]\<rparr>"
  have st2: "tokens st2 = tokens st @ [tok]" "succs st2 = succs st @ [[]]"
    "succs_caps st2 = succs_caps st @ [0]" "hash_index st2 = hash_index st"
    by (simp_all add: st2_def)
  from assms(3) have "(case hash_insert st2 tok (int (length (tokens st))) of
        Inl e \<Rightarrow> Inl e | Inr st3 \<Rightarrow> Inr (length (tokens st), st3)) = Inr (n, st')"
    unfolding token_id_not_found [OF assms(1,2)] st2_def .
  then have ins: "hash_insert st2 tok (int (length (tokens st))) = Inr st'" and n: "n = length (tokens st)"
    by (cases "hash_insert st2 tok (int (length (tokens st)))"; simp)+
  from ins have ins': "hash_insert_loop st2 (int (length (tokens st))) ?h 0 = Inr st'"
    by (simp add: hash_insert_def)
  from hash_insert_loop_result [OF ins'] obtain p where
    p: "p < HASH_SIZE" "hash_index st2 ((?h + p) mod HASH_SIZE) = -1"
       "\<forall>q. q < p \<longrightarrow> hash_index st2 ((?h + q) mod HASH_SIZE) \<noteq> -1"
       "st' = st2\<lparr>hash_index := (hash_index st2)((?h + p) mod HASH_SIZE := int (length (tokens st)))\<rparr>"
    by auto
  have st': "tokens st' = tokens st @ [tok]" "succs st' = succs st @ [[]]"
    "succs_caps st' = succs_caps st @ [0]"
    "hash_index st' = (hash_index st)((?h + p) mod HASH_SIZE := int (length (tokens st)))"
    unfolding p(4) by (simp_all add: st2)
  from assms(1,2) hash_find_loop_range [of st tok ?h 0 found] have f: "hash_find_loop st tok ?h 0 = Inr (-1)"
    by (auto simp: hash_find_def)
  have "hash_find_loop st' tok ?h 0 = Inr (int (length (tokens st)))"
    by (rule hash_find_loop_after_insert [OF f _ p(1) _ _ st'(1) st'(4)]) (use p(2,3) st2(4) in simp_all)
  then have "hash_find st' tok = Inr (int n)" by (simp add: hash_find_def n)
  moreover have "\<exists>p < HASH_SIZE. hash_index st ((?h + p) mod HASH_SIZE) = -1 \<and>
           (\<forall>q < p. hash_index st ((?h + q) mod HASH_SIZE) \<noteq> -1) \<and>
           hash_index st' = (hash_index st)((?h + p) mod HASH_SIZE := int n)"
  proof (intro exI [of _ p] conjI)
    show "hash_index st' = (hash_index st)((?h + p) mod HASH_SIZE := int n)"
      unfolding n by (rule st'(4))
  qed (use p(1,2,3) in \<open>simp_all add: st2(4)\<close>)
  ultimately show ?thesis using n st'(1,2,3) by simp
qed

subsection \<open>The invariant and \<open>token_id\<close>\<close>

lemma wf_model_init: "wf_model init_state"
  by (simp add: wf_model_def init_state_def hash_init_def slots_valid_def caps_ok_def
      ensure_tokens_capacity_def tokens_size_def)

lemma hash_find_loop_miss:
  "slots_valid st \<Longrightarrow> s \<notin> set (tokens st) \<Longrightarrow> hash_find_loop st s h probe = Inr (-1)"
proof (induction st s h probe rule: hash_find_loop.induct)
  case (1 st s h probe)
  note unf = hash_find_loop.simps [of st s h probe]
  let ?v = "hash_index st ((h + probe) mod HASH_SIZE)"
  show ?case
  proof (cases "probe < HASH_SIZE \<and> ?v \<noteq> -1")
    case True
    with "1.prems"(1) have v: "0 \<le> ?v" "nat ?v < length (tokens st)"
      unfolding slots_valid_def by (metis)+
    then have "tokens st ! nat ?v \<in> set (tokens st)" by simp
    with "1.prems"(2) have ne: "tokens st ! nat ?v \<noteq> s" by auto
    have "hash_find_loop st s h (probe + 1) = Inr (-1)"
      using "1.IH" [OF _ refl refl _ _ ne "1.prems"] True v by (simp add: tokens_size_def)
    then show ?thesis using True v ne by (simp add: unf Let_def tokens_size_def)
  next
    case False
    then show ?thesis by (auto simp: unf Let_def)
  qed
qed

lemma hash_find_loop_hit:
  assumes "slots_valid st" "distinct (tokens st)" "n < length (tokens st)" "tokens st ! n = s"
    and "probe \<le> p" "p < HASH_SIZE" "hash_index st ((h + p) mod HASH_SIZE) = int n"
    and "\<forall>q. probe \<le> q \<and> q < p \<longrightarrow> hash_index st ((h + q) mod HASH_SIZE) \<noteq> -1"
  shows "hash_find_loop st s h probe = Inr (int n)"
  using assms
proof (induction st s h probe rule: hash_find_loop.induct)
  case (1 st s h probe)
  note unf = hash_find_loop.simps [of st s h probe]
  let ?v = "hash_index st ((h + probe) mod HASH_SIZE)"
  have lt: "probe < HASH_SIZE" using "1.prems" by simp
  show ?case
  proof (cases "probe = p")
    case True
    then have "?v = int n" using "1.prems"(7) by simp
    then show ?thesis using lt "1.prems"(3,4) by (simp add: unf Let_def tokens_size_def)
  next
    case False
    then have ne1: "?v \<noteq> -1" using "1.prems"(5,8) by simp
    with "1.prems"(1) have v: "0 \<le> ?v" "nat ?v < length (tokens st)"
      unfolding slots_valid_def by (metis)+
    show ?thesis
    proof (cases "tokens st ! nat ?v = s")
      case True
      with "1.prems"(2,3,4) v have "nat ?v = n"
        using nth_eq_iff_index_eq [of "tokens st" "nat ?v" n] by simp
      then have "?v = int n" using v by simp
      then show ?thesis using lt "1.prems"(3,4) by (simp add: unf Let_def tokens_size_def)
    next
      case ne: False
      have "hash_find_loop st s h (probe + 1) = Inr (int n)"
      proof (rule "1.IH" [OF lt refl refl ne1 _ ne "1.prems"(1,2,3,4) _ "1.prems"(6,7)])
        show "\<not> (?v < 0 \<or> tokens_size st \<le> nat ?v)" using v by (simp add: tokens_size_def)
        show "probe + 1 \<le> p" using False "1.prems"(5) by simp
        show "\<forall>q. probe + 1 \<le> q \<and> q < p \<longrightarrow> hash_index st ((h + q) mod HASH_SIZE) \<noteq> - 1"
          using "1.prems"(8) by simp
      qed
      then show ?thesis using lt ne1 v ne by (simp add: unf Let_def tokens_size_def)
    qed
  qed
qed

lemma hash_find_miss:
  "wf_model st \<Longrightarrow> s \<notin> set (tokens st) \<Longrightarrow> hash_find st s = Inr (-1)"
  by (simp add: hash_find_def wf_model_def hash_find_loop_miss)

lemma hash_find_hit:
  assumes "wf_model st" "n < length (tokens st)"
  shows "hash_find st (tokens st ! n) = Inr (int n)"
proof -
  from assms have "reachable_slot st n" by (simp add: wf_model_def)
  then obtain p where p: "p < HASH_SIZE" "hash_index st (slot (tokens st ! n) p) = int n"
    "\<forall>q. q < p \<longrightarrow> hash_index st (slot (tokens st ! n) q) \<noteq> -1"
    unfolding reachable_slot_def by blast
  show ?thesis
    unfolding hash_find_def
    by (rule hash_find_loop_hit [where p = p and n = n])
       (use assms p in \<open>simp_all add: wf_model_def slot_def\<close>)
qed

lemma token_id_known:
  assumes "wf_model st" "s \<in> set (tokens st)" "token_id st s = Inr (n, st')"
  shows "st' = st \<and> n < length (tokens st) \<and> tokens st ! n = s"
proof -
  from assms(2) obtain m where m: "m < length (tokens st)" "tokens st ! m = s"
    by (auto simp: in_set_conv_nth)
  from hash_find_hit [OF assms(1) m(1)] m(2) have "hash_find st s = Inr (int m)" by simp
  from token_id_found [OF this] assms(3) have "n = m" "st' = st" by simp_all
  with m show ?thesis by simp
qed

lemma token_id_fresh:
  assumes wf: "wf_model st" and new: "s \<notin> set (tokens st)" and t: "token_id st s = Inr (n, st')"
  shows "n = length (tokens st) \<and> tokens st' = tokens st @ [s] \<and> succs st' = succs st @ [[]] \<and>
         succs_caps st' = succs_caps st @ [0] \<and> wf_model st'"
proof -
  have f: "hash_find st s = Inr (-1)" by (rule hash_find_miss [OF wf new])
  from token_id_new [OF f _ t] obtain p where
    n: "n = length (tokens st)" and tk: "tokens st' = tokens st @ [s]"
    and su: "succs st' = succs st @ [[]]" and ca: "succs_caps st' = succs_caps st @ [0]"
    and p: "p < HASH_SIZE" "hash_index st (slot s p) = -1"
      "\<forall>q<p. hash_index st (slot s q) \<noteq> -1"
    and hi: "hash_index st' = (hash_index st)(slot s p := int n)"
    unfolding slot_def by auto
  from wf have d: "distinct (tokens st)" and l1: "length (succs st) = length (tokens st)"
    and l2: "length (succs_caps st) = length (tokens st)" and sv: "slots_valid st"
    and rs: "\<And>m. m < length (tokens st) \<Longrightarrow> reachable_slot st m" and co: "caps_ok st"
    by (simp_all add: wf_model_def)
  have hi_at: "\<And>i. hash_index st' i = (if i = slot s p then int n else hash_index st i)"
    by (simp add: hi)
  have sv': "slots_valid st'"
    unfolding slots_valid_def
  proof
    fix i
    from sv have "hash_index st i = -1 \<or> (0 \<le> hash_index st i \<and> nat (hash_index st i) < length (tokens st))"
      unfolding slots_valid_def by (rule spec)
    then show "hash_index st' i = -1 \<or> (0 \<le> hash_index st' i \<and> nat (hash_index st' i) < length (tokens st'))"
      by (auto simp: hi_at tk n)
  qed
  have rs': "reachable_slot st' m" if m: "m < length (tokens st')" for m
  proof (cases "m < length (tokens st)")
    case True
    from rs [OF True] obtain pm where pm: "pm < HASH_SIZE"
      "hash_index st (slot (tokens st ! m) pm) = int m"
      "\<forall>q. q < pm \<longrightarrow> hash_index st (slot (tokens st ! m) q) \<noteq> -1"
      unfolding reachable_slot_def by blast
    have same: "tokens st' ! m = tokens st ! m" using True by (simp add: tk nth_append)
    have "slot (tokens st ! m) pm \<noteq> slot s p" using pm(2) p(2) by auto
    then have a: "hash_index st' (slot (tokens st' ! m) pm) = int m"
      using pm(2) by (simp add: hi_at same)
    have b: "\<forall>q. q < pm \<longrightarrow> hash_index st' (slot (tokens st' ! m) q) \<noteq> -1"
      using pm(3) by (simp add: hi_at same)
    show ?thesis unfolding reachable_slot_def using pm(1) a b by blast
  next
    case False
    with m have mn: "m = n" by (simp add: tk n)
    have same: "tokens st' ! n = s" by (simp add: n tk)
    have a: "hash_index st' (slot (tokens st' ! n) p) = int n" by (simp add: hi_at same)
    have b: "\<forall>q. q < p \<longrightarrow> hash_index st' (slot (tokens st' ! n) q) \<noteq> -1"
      using p(3) by (simp add: hi_at same)
    show ?thesis unfolding mn reachable_slot_def using p(1) a b by blast
  qed
  have co': "caps_ok st'"
    unfolding caps_ok_def
  proof (intro allI impI)
    fix i assume i: "i < length (succs st')"
    show "(succs st' ! i = [] \<and> succs_caps st' ! i = 0) \<or>
        (succs st' ! i \<noteq> [] \<and> length (succs st' ! i) \<le> succs_caps st' ! i \<and>
         (\<exists>j. succs_caps st' ! i = INIT_SUCC_CAP * 2 ^ j))"
    proof (cases "i < length (succs st)")
      case True
      with co have "(succs st ! i = [] \<and> succs_caps st ! i = 0) \<or>
        (succs st ! i \<noteq> [] \<and> length (succs st ! i) \<le> succs_caps st ! i \<and>
         (\<exists>j. succs_caps st ! i = INIT_SUCC_CAP * 2 ^ j))"
        unfolding caps_ok_def by blast
      then show ?thesis using True l1 l2 by (simp add: su ca nth_append)
    next
      case False
      with i have "i = length (succs st)" by (simp add: su)
      then show ?thesis using l1 l2 by (simp add: su ca nth_append)
    qed
  qed
  have "wf_model st'"
    unfolding wf_model_def using d new l1 l2 sv' rs' co' by (simp add: tk su ca)
  with n tk su ca show ?thesis by simp
qed

lemma token_id_wf:
  assumes "wf_model st" "token_id st s = Inr (n, st')"
  shows "wf_model st' \<and> n < length (tokens st') \<and> tokens st' ! n = s"
proof (cases "s \<in> set (tokens st)")
  case True
  from token_id_known [OF assms(1) True assms(2)] assms(1) show ?thesis by simp
next
  case False
  from token_id_fresh [OF assms(1) False assms(2)] show ?thesis by simp
qed

lemma token_id_tokens:
  assumes "wf_model st" "token_id st s = Inr (n, st')"
  shows "tokens st' = intern (tokens st) s"
proof (cases "s \<in> set (tokens st)")
  case True
  from token_id_known [OF assms(1) True assms(2)] True show ?thesis by (simp add: intern_def)
next
  case False
  from token_id_fresh [OF assms(1) False assms(2)] False show ?thesis by (simp add: intern_def)
qed

subsection \<open>Successor lists\<close>

lemma yielded_append [simp]: "yielded (xs @ ys) = yielded xs @ yielded ys"
  by (induction xs rule: yielded.induct) simp_all

lemma edges_append [simp]: "edges (xs @ ys) = edges xs @ edges ys"
  by (induction xs rule: edges.induct) simp_all

lemma successors_of_nth:
  "wf_model st \<Longrightarrow> n < length (tokens st) \<Longrightarrow> successors_of st (tokens st ! n) = succs st ! n"
  by (simp add: successors_of_def wf_model_def map_of_zip_nth)

lemma successors_of_unknown:
  "wf_model st \<Longrightarrow> s \<notin> set (tokens st) \<Longrightarrow> successors_of st s = []"
proof -
  assume "wf_model st" "s \<notin> set (tokens st)"
  then have "s \<notin> fst ` set (zip (tokens st) (succs st))"
    by (auto dest: set_zip_leftD)
  then have "map_of (zip (tokens st) (succs st)) s = None" by (simp add: map_of_eq_None_iff)
  then show ?thesis by (simp add: successors_of_def)
qed

lemma token_id_successors_of:
  assumes "wf_model st" "token_id st s = Inr (n, st')"
  shows "successors_of st' a = successors_of st a"
proof (cases "s \<in> set (tokens st)")
  case True
  from token_id_known [OF assms(1) True assms(2)] show ?thesis by simp
next
  case False
  from token_id_fresh [OF assms(1) False assms(2)] have
    tk: "tokens st' = tokens st @ [s]" and su: "succs st' = succs st @ [[]]" and wf': "wf_model st'"
    by simp_all
  show ?thesis
  proof (cases "a \<in> set (tokens st)")
    case True
    then obtain m where m: "m < length (tokens st)" "tokens st ! m = a"
      by (auto simp: in_set_conv_nth)
    then have m': "m < length (tokens st')" "tokens st' ! m = a" by (simp_all add: tk nth_append)
    from assms(1) have "length (succs st) = length (tokens st)" by (simp add: wf_model_def)
    with m have "succs st' ! m = succs st ! m" by (simp add: su nth_append)
    with successors_of_nth [OF assms(1) m(1)] successors_of_nth [OF wf' m'(1)] m(2) m'(2)
    show ?thesis by simp
  next
    case na: False
    show ?thesis
    proof (cases "a = s")
      case True
      from assms(1) have l: "length (succs st) = length (tokens st)" by (simp add: wf_model_def)
      have "successors_of st' (tokens st' ! length (tokens st)) = succs st' ! length (tokens st)"
        by (rule successors_of_nth [OF wf']) (simp add: tk)
      then have "successors_of st' s = []" using l by (simp add: tk su nth_append)
      with successors_of_unknown [OF assms(1) False] True show ?thesis by simp
    next
      case False
      with na have "a \<notin> set (tokens st')" by (simp add: tk)
      with successors_of_unknown [OF wf'] successors_of_unknown [OF assms(1) na] show ?thesis by simp
    qed
  qed
qed

lemma append_to_succs_effect:
  assumes wf: "wf_model st" and a: "append_to_succs st prev b = Inr st'"
  shows "\<exists>pid st1. token_id st prev = Inr (pid, st1) \<and> pid < length (tokens st1) \<and>
           tokens st1 ! pid = prev \<and> wf_model st1 \<and> wf_model st' \<and>
           tokens st' = tokens st1 \<and> hash_index st' = hash_index st1 \<and>
           tokens_cap st' = tokens_cap st1 \<and>
           succs st' = (succs st1)[pid := succs st1 ! pid @ [b]] \<and>
           succs_caps st' = (succs_caps st1)[pid := new_cap (succs_caps st1 ! pid) (length (succs st1 ! pid))]"
proof -
  from a obtain pid st1 where t: "token_id st prev = Inr (pid, st1)"
    by (auto simp: append_to_succs_def split: sum.splits)
  from token_id_wf [OF wf t] have wf1: "wf_model st1" and pid: "pid < length (tokens st1)"
    and tp: "tokens st1 ! pid = prev" by simp_all
  from wf1 have l1: "length (succs st1) = length (tokens st1)"
    and l2: "length (succs_caps st1) = length (tokens st1)" and co: "caps_ok st1"
    by (simp_all add: wf_model_def)
  define c where "c = new_cap (succs_caps st1 ! pid) (length (succs st1 ! pid))"
  have st': "st' = st1\<lparr>succs_caps := (succs_caps st1)[pid := c],
      succs := (succs st1)[pid := succs st1 ! pid @ [b]]\<rparr>"
  proof (cases "succs_caps st1 ! pid = 0")
    case True
    with a t pid l1 l2 show ?thesis
      by (simp add: append_to_succs_def Let_def c_def new_cap_def)
  next
    case nz: False
    show ?thesis
    proof (cases "length (succs st1 ! pid) \<ge> succs_caps st1 ! pid")
      case True
      with nz a t pid l1 l2 show ?thesis
        by (simp add: append_to_succs_def Let_def c_def new_cap_def)
    next
      case False
      with nz have "c = succs_caps st1 ! pid" by (simp add: c_def new_cap_def)
      then have "(succs_caps st1)[pid := c] = succs_caps st1" by simp
      with False nz a t pid l1 l2 show ?thesis
        by (simp add: append_to_succs_def Let_def)
    qed
  qed
  have f: "tokens st' = tokens st1" "hash_index st' = hash_index st1" "tokens_cap st' = tokens_cap st1"
    "succs st' = (succs st1)[pid := succs st1 ! pid @ [b]]"
    "succs_caps st' = (succs_caps st1)[pid := c]"
    by (simp_all add: st')
  from co pid l1 have old: "(succs st1 ! pid = [] \<and> succs_caps st1 ! pid = 0) \<or>
        (succs st1 ! pid \<noteq> [] \<and> length (succs st1 ! pid) \<le> succs_caps st1 ! pid \<and>
         (\<exists>j. succs_caps st1 ! pid = INIT_SUCC_CAP * 2 ^ j))"
    unfolding caps_ok_def by simp
  have newc: "length (succs st1 ! pid) + 1 \<le> c \<and> (\<exists>j. c = INIT_SUCC_CAP * 2 ^ j)"
    using old
  proof
    assume "succs st1 ! pid = [] \<and> succs_caps st1 ! pid = 0"
    then have "c = INIT_SUCC_CAP * 2 ^ 0" "length (succs st1 ! pid) = 0"
      by (simp_all add: c_def new_cap_def)
    then show ?thesis by (auto simp: INIT_SUCC_CAP_def intro: exI [of _ 0])
  next
    assume o: "succs st1 ! pid \<noteq> [] \<and> length (succs st1 ! pid) \<le> succs_caps st1 ! pid \<and>
         (\<exists>j. succs_caps st1 ! pid = INIT_SUCC_CAP * 2 ^ j)"
    then obtain j where j: "succs_caps st1 ! pid = INIT_SUCC_CAP * 2 ^ j" by blast
    then have pos: "succs_caps st1 ! pid \<noteq> 0" by (simp add: INIT_SUCC_CAP_def)
    show ?thesis
    proof (cases "length (succs st1 ! pid) \<ge> succs_caps st1 ! pid")
      case True
      then have "c = INIT_SUCC_CAP * 2 ^ Suc j" using pos j by (simp add: c_def new_cap_def)
      moreover have "length (succs st1 ! pid) + 1 \<le> c"
        using True o pos by (simp add: c_def new_cap_def)
      ultimately show ?thesis by blast
    next
      case False
      then have "c = INIT_SUCC_CAP * 2 ^ j" using pos j by (simp add: c_def new_cap_def)
      moreover have "length (succs st1 ! pid) + 1 \<le> c"
        using False pos by (simp add: c_def new_cap_def)
      ultimately show ?thesis by blast
    qed
  qed
  have co': "caps_ok st'"
    unfolding caps_ok_def
  proof (intro allI impI)
    fix i assume i: "i < length (succs st')"
    show "(succs st' ! i = [] \<and> succs_caps st' ! i = 0) \<or>
        (succs st' ! i \<noteq> [] \<and> length (succs st' ! i) \<le> succs_caps st' ! i \<and>
         (\<exists>j. succs_caps st' ! i = INIT_SUCC_CAP * 2 ^ j))"
    proof (cases "i = pid")
      case True
      then show ?thesis using newc pid l1 l2 by (simp add: f)
    next
      case False
      from co i have "(succs st1 ! i = [] \<and> succs_caps st1 ! i = 0) \<or>
        (succs st1 ! i \<noteq> [] \<and> length (succs st1 ! i) \<le> succs_caps st1 ! i \<and>
         (\<exists>j. succs_caps st1 ! i = INIT_SUCC_CAP * 2 ^ j))"
        unfolding caps_ok_def by (simp add: f)
      then show ?thesis using False by (simp add: f)
    qed
  qed
  have sv: "slots_valid st'" using wf1 by (simp add: wf_model_def slots_valid_def f)
  have rs: "\<forall>n. n < length (tokens st') \<longrightarrow> reachable_slot st' n"
    using wf1 by (simp add: wf_model_def reachable_slot_def f)
  have wf': "wf_model st'"
    unfolding wf_model_def using wf1 sv rs co' l1 l2 by (simp add: f wf_model_def)
  show ?thesis
    using t pid tp wf1 wf' f unfolding c_def by simp
qed

subsection \<open>The loop of the tokenizer\<close>

lemma pairs_from_Some: "pairs_from (Some p) ts = zip (p # ts) ts"
  by (induction ts arbitrary: p) simp_all

lemma pairs_from_None: "pairs_from None ts = zip ts (tl ts)"
  by (cases ts) (simp_all add: pairs_from_Some)

lemma intern_prefix: "\<exists>ys. intern ts s = ts @ ys"
  by (simp add: intern_def)

lemma foldl_intern_prefix: "\<exists>ys. foldl intern ts xs = ts @ ys"
proof (induction xs arbitrary: ts)
  case Nil
  then show ?case by simp
next
  case (Cons x xs)
  from Cons [of "intern ts x"] intern_prefix [of ts x] show ?case by auto
qed

lemma append_to_succs_successors_of:
  assumes wf: "wf_model st" and a: "append_to_succs st p b = Inr st'"
  shows "successors_of st' x = successors_of st x @ (if x = p then [b] else [])"
proof -
  from append_to_succs_effect [OF wf a] obtain pid st1 where
    t: "token_id st p = Inr (pid, st1)" and pid: "pid < length (tokens st1)"
    and tp: "tokens st1 ! pid = p" and wf1: "wf_model st1" and wf': "wf_model st'"
    and tk: "tokens st' = tokens st1"
    and su: "succs st' = (succs st1)[pid := succs st1 ! pid @ [b]]"
    by blast
  have s1: "successors_of st1 x = successors_of st x" by (rule token_id_successors_of [OF wf t])
  from wf1 have l: "length (succs st1) = length (tokens st1)" and d: "distinct (tokens st1)"
    by (simp_all add: wf_model_def)
  show ?thesis
  proof (cases "x \<in> set (tokens st1)")
    case True
    then obtain m where m: "m < length (tokens st1)" "tokens st1 ! m = x"
      by (auto simp: in_set_conv_nth)
    have eq: "x = p \<longleftrightarrow> m = pid"
      using m pid tp d nth_eq_iff_index_eq [of "tokens st1" m pid] by auto
    have "successors_of st' x = succs st' ! m"
      using successors_of_nth [OF wf', of m] m by (simp add: tk)
    also have "\<dots> = succs st1 ! m @ (if m = pid then [b] else [])"
      using m l by (simp add: su nth_list_update)
    also have "succs st1 ! m = successors_of st1 x"
      using successors_of_nth [OF wf1 m(1)] m(2) by simp
    finally show ?thesis using eq s1 by simp
  next
    case False
    with pid tp have "x \<noteq> p" by auto
    moreover from False have "successors_of st' x = []" "successors_of st1 x = []"
      using successors_of_unknown [OF wf', of x] successors_of_unknown [OF wf1, of x]
      by (simp_all add: tk)
    ultimately show ?thesis using s1 by simp
  qed
qed

lemma append_to_succs_tokens:
  assumes wf: "wf_model st" and a: "append_to_succs st p b = Inr st'"
  shows "tokens st' = intern (tokens st) p \<and> wf_model st'"
proof -
  from append_to_succs_effect [OF wf a] obtain pid st1 where
    t: "token_id st p = Inr (pid, st1)" and wf': "wf_model st'" and tk: "tokens st' = tokens st1"
    by blast
  with token_id_tokens [OF wf t] show ?thesis by simp
qed

lemma tokenize_loop_effect:
  "tokenize_loop d st prev r tr = Inr (st', tr') \<Longrightarrow> wf_model st \<Longrightarrow>
   (case prev of None \<Rightarrow> True | Some p \<Rightarrow> p \<in> set (tokens st)) \<Longrightarrow>
   \<exists>new. tr' = tr @ new \<and> wf_model st' \<and>
       tokens st' = foldl intern (tokens st) (map fst (yielded new)) \<and>
       (\<forall>s n. (s, n) \<in> set (yielded new) \<longrightarrow> n < length (tokens st') \<and> tokens st' ! n = s) \<and>
       edges new = pairs_from prev (map fst (yielded new)) \<and>
       (\<forall>x. successors_of st' x =
            successors_of st x @ map snd (filter (\<lambda>(a, b). a = x) (edges new)))"
proof (induction d st prev r tr rule: tokenize_loop.induct)
  case (1 d st prev tr)
  then have "st' = st" "tr' = tr" by (simp_all add: tokenize_loop.simps)
  with "1.prems" show ?case by (intro exI [of _ "[]"]) simp
next
  case (2 d st prev tok rest tr)
  let ?ev = "Yield tok"
  from "2.prems"(1) obtain tid st1 where t: "token_id st tok = Inr (tid, st1)"
    by (auto simp: tokenize_loop.simps split: sum.splits)
  let ?e = "case prev of None \<Rightarrow> [] | Some p \<Rightarrow> [Edge p tok]"
  from "2.prems"(1) t obtain st2 where
    s2: "(case prev of None \<Rightarrow> Inr st1 | Some p \<Rightarrow> append_to_succs st1 p tok) = Inr st2"
    and rec: "tokenize_loop d st2 (Some tok) (strtok_r d rest) (tr @ Yield tok tid # ?e) = Inr (st', tr')"
    by (auto simp: tokenize_loop.simps split: sum.splits)
  from token_id_wf [OF "2.prems"(2) t] have wf1: "wf_model st1" and tid: "tid < length (tokens st1)"
    and ttid: "tokens st1 ! tid = tok" by simp_all
  have tk1: "tokens st1 = intern (tokens st) tok" by (rule token_id_tokens [OF "2.prems"(2) t])
  have su1: "\<And>x. successors_of st1 x = successors_of st x"
    by (rule token_id_successors_of [OF "2.prems"(2) t])
  have prev1: "case prev of None \<Rightarrow> True | Some p \<Rightarrow> p \<in> set (tokens st1)"
    using "2.prems"(3) by (auto simp: tk1 intern_def split: option.splits)
  have st2: "wf_model st2 \<and> tokens st2 = tokens st1 \<and>
      (\<forall>x. successors_of st2 x = successors_of st1 x @ map snd (filter (\<lambda>(a, b). a = x) (edges ?e)))"
  proof (cases prev)
    case None
    with s2 wf1 show ?thesis by simp
  next
    case (Some p)
    with s2 have a: "append_to_succs st1 p tok = Inr st2" by simp
    from Some prev1 have "p \<in> set (tokens st1)" by simp
    with append_to_succs_tokens [OF wf1 a] have "wf_model st2" "tokens st2 = tokens st1"
      by (simp_all add: intern_def)
    with append_to_succs_successors_of [OF wf1 a] Some show ?thesis by auto
  qed
  then have wf2: "wf_model st2" and tk2: "tokens st2 = tokens st1"
    and su2: "\<And>x. successors_of st2 x = successors_of st1 x @ map snd (filter (\<lambda>(a, b). a = x) (edges ?e))"
    by simp_all
  have tok2: "case Some tok of None \<Rightarrow> True | Some p \<Rightarrow> p \<in> set (tokens st2)"
    using tid ttid by (auto simp: tk2)
  from "2.IH" [OF t refl s2 rec wf2 tok2] obtain new where
    n1: "tr' = (tr @ Yield tok tid # ?e) @ new" and n2: "wf_model st'"
    and n3: "tokens st' = foldl intern (tokens st2) (map fst (yielded new))"
    and n4: "\<forall>s n. (s, n) \<in> set (yielded new) \<longrightarrow> n < length (tokens st') \<and> tokens st' ! n = s"
    and n5: "edges new = pairs_from (Some tok) (map fst (yielded new))"
    and n6: "\<forall>x. successors_of st' x =
            successors_of st2 x @ map snd (filter (\<lambda>(a, b). a = x) (edges new))"
    by blast
  let ?new = "Yield tok tid # ?e @ new"
  have ye: "yielded ?e = []" by (simp split: option.splits)
  have y: "yielded ?new = (tok, tid) # yielded new" by (simp add: ye)
  have e: "edges ?new = edges ?e @ edges new" by simp
  from foldl_intern_prefix [of "tokens st2" "map fst (yielded new)"] n3
  obtain ys where ys: "tokens st' = tokens st1 @ ys" by (auto simp: tk2)
  have a1: "tr' = tr @ ?new" using n1 by simp
  have a3: "tokens st' = foldl intern (tokens st) (map fst (yielded ?new))"
    unfolding y by (simp add: n3 tk2 tk1)
  have a4: "\<forall>s n. (s, n) \<in> set (yielded ?new) \<longrightarrow> n < length (tokens st') \<and> tokens st' ! n = s"
    unfolding y using n4 tid ttid by (auto simp: ys nth_append)
  have a5: "edges ?new = pairs_from prev (map fst (yielded ?new))"
    unfolding y by (cases prev) (simp_all add: n5)
  have a6: "\<forall>x. successors_of st' x =
            successors_of st x @ map snd (filter (\<lambda>(a, b). a = x) (edges ?new))"
    unfolding e by (simp add: n6 su2 su1)
  show ?case
    using a1 n2 a3 a4 a5 a6 by (intro exI [of _ ?new] conjI)
qed

subsection \<open>Running the model on an input\<close>

text \<open>The equations that evaluate the functions of the model on a given input.\<close>

lemmas walk_simps = generate_sentence_def random_token_id_that_starts_a_sentence_def
  random_pick_loop.simps first_capitalized_loop.simps walk_loop.simps
  token_ends_a_sentence_def last_char_def isalpha_def isupper_def first_char_def
  ends_with_char_def Let_def

lemmas run_simps = token_id_def hash_find_def hash_insert_def hash_str_def HASH_SIZE_def
  init_state_def hash_init_def ensure_tokens_capacity_def tokens_size_def
  append_to_succs_def tokenize_and_fill_succs_def strtok_r_def INIT_SUCC_CAP_def
  hash_find_loop.simps hash_insert_loop.simps tokenize_loop.simps

subsection \<open>Tokenizing from the initial model\<close>

lemma foldl_intern_first_occurrences:
  "foldl intern ts xs = ts @ filter (\<lambda>y. y \<notin> set ts) (first_occurrences xs)"
proof (induction xs arbitrary: ts)
  case Nil
  then show ?case by simp
next
  case (Cons x xs)
  show ?case
  proof (cases "x \<in> set ts")
    case True
    then have "filter (\<lambda>y. y \<notin> set ts) (filter (\<lambda>y. y \<noteq> x) (first_occurrences xs)) =
        filter (\<lambda>y. y \<notin> set ts) (first_occurrences xs)"
      by (auto intro: filter_cong)
    with True Cons [of ts] show ?thesis by (simp add: intern_def)
  next
    case False
    have "filter (\<lambda>y. y \<notin> set (ts @ [x])) (first_occurrences xs) =
        filter (\<lambda>y. y \<notin> set ts) (filter (\<lambda>y. y \<noteq> x) (first_occurrences xs))"
      by (auto intro: filter_cong)
    with False Cons [of "ts @ [x]"] show ?thesis by (simp add: intern_def)
  qed
qed

lemma set_first_occurrences [simp]: "set (first_occurrences xs) = set xs"
  by (induction xs) auto

lemma tokenize_from_init:
  assumes "tokenize_and_fill_succs delimiters str init_state = Inr (st, tr)"
  shows "wf_model st \<and> tokens st = first_occurrences (map fst (yielded tr)) \<and>
         (\<forall>s n. (s, n) \<in> set (yielded tr) \<longrightarrow> n < length (tokens st) \<and> tokens st ! n = s) \<and>
         edges tr = zip (map fst (yielded tr)) (tl (map fst (yielded tr))) \<and>
         (\<forall>n. n < length (tokens st) \<longrightarrow>
            succs st ! n = map snd (filter (\<lambda>(a, b). a = tokens st ! n) (edges tr)))"
proof -
  have t0: "tokens init_state = []" "succs init_state = []"
    by (simp_all add: init_state_def hash_init_def)
  from assms have "tokenize_loop delimiters init_state None (strtok_r delimiters str) [] = Inr (st, tr)"
    by (simp add: tokenize_and_fill_succs_def)
  from tokenize_loop_effect [OF this wf_model_init] have wf: "wf_model st"
    and tk: "tokens st = foldl intern [] (map fst (yielded tr))"
    and ids: "\<forall>s n. (s, n) \<in> set (yielded tr) \<longrightarrow> n < length (tokens st) \<and> tokens st ! n = s"
    and ed: "edges tr = pairs_from None (map fst (yielded tr))"
    and su: "\<forall>x. successors_of st x =
        successors_of init_state x @ map snd (filter (\<lambda>(a, b). a = x) (edges tr))"
    by (auto simp: t0)
  have s0: "\<And>x. successors_of init_state x = []" by (simp add: successors_of_def t0)
  have "\<forall>n. n < length (tokens st) \<longrightarrow>
            succs st ! n = map snd (filter (\<lambda>(a, b). a = tokens st ! n) (edges tr))"
    using successors_of_nth [OF wf] su s0 by simp
  with wf tk ids ed show ?thesis
    by (simp add: foldl_intern_first_occurrences pairs_from_None)
qed

subsection \<open>Start selection\<close>

lemma random_pick_loop_spec:
  "tokens_size st \<noteq> 0 \<Longrightarrow> attempts + n = 10000 \<Longrightarrow>
   random_pick_loop rnd st k attempts =
     (case find (\<lambda>i. starts_sentence (tokens st ! i))
             (map (\<lambda>j. rnd (k + j) mod tokens_size st) [0..<n]) of
        Some i \<Rightarrow> (Some i, k + length (takeWhile (\<lambda>i. \<not> starts_sentence (tokens st ! i))
             (map (\<lambda>j. rnd (k + j) mod tokens_size st) [0..<n])) + 1)
      | None \<Rightarrow> (None, k + n))"
proof (induction n arbitrary: k attempts)
  case 0
  then have a: "attempts = 10000" by simp
  show ?case unfolding a by (simp add: random_pick_loop.simps [of rnd st k 10000])
next
  case (Suc n)
  then have lt: "attempts < 10000" by simp
  let ?i = "rnd k mod tokens_size st"
  have m: "map (\<lambda>j. rnd (k + j) mod tokens_size st) [0..<Suc n] =
      ?i # map (\<lambda>j. rnd (Suc k + j) mod tokens_size st) [0..<n]"
    by (simp add: map_upt_Suc del: upt_Suc)
  show ?case
  proof (cases "starts_sentence (tokens st ! ?i)")
    case True
    then show ?thesis
      unfolding m using lt Suc.prems(1)
      by (simp add: random_pick_loop.simps [of rnd st k attempts] Let_def starts_sentence_def)
  next
    case False
    have "random_pick_loop rnd st k attempts = random_pick_loop rnd st (k + 1) (attempts + 1)"
      using False lt Suc.prems(1)
      by (auto simp: random_pick_loop.simps [of rnd st k attempts] Let_def starts_sentence_def)
    also have "\<dots> = (case find (\<lambda>i. starts_sentence (tokens st ! i))
             (map (\<lambda>j. rnd (k + 1 + j) mod tokens_size st) [0..<n]) of
        Some i \<Rightarrow> (Some i, k + 1 + length (takeWhile (\<lambda>i. \<not> starts_sentence (tokens st ! i))
             (map (\<lambda>j. rnd (k + 1 + j) mod tokens_size st) [0..<n])) + 1)
      | None \<Rightarrow> (None, k + 1 + n))"
      using Suc.prems by (intro Suc.IH) simp_all
    finally show ?thesis
      unfolding m using False by (simp split: option.splits)
  qed
qed

lemma first_capitalized_loop_spec:
  "first_capitalized_loop st i =
     (case find (\<lambda>i. starts_sentence (tokens st ! i)) [i..<tokens_size st] of
        Some j \<Rightarrow> j | None \<Rightarrow> 0)"
proof (induction st i rule: first_capitalized_loop.induct)
  case (1 st i)
  note unf = first_capitalized_loop.simps [of st i]
  show ?case
  proof (cases "i < tokens_size st")
    case True
    then have u: "[i..<tokens_size st] = i # [Suc i..<tokens_size st]" by (simp add: upt_rec)
    show ?thesis
    proof (cases "starts_sentence (tokens st ! i)")
      case s: True
      then show ?thesis using True unfolding u by (simp add: unf Let_def starts_sentence_def)
    next
      case False
      with "1.IH" [OF True refl] True have
        "first_capitalized_loop st (i + 1) =
          (case find (\<lambda>i. starts_sentence (tokens st ! i)) [i + 1..<tokens_size st] of
             Some j \<Rightarrow> j | None \<Rightarrow> 0)"
        by (auto simp: starts_sentence_def)
      then show ?thesis using True False unfolding u by (auto simp: unf Let_def starts_sentence_def)
    qed
  next
    case False
    then show ?thesis by (simp add: unf)
  qed
qed

lemma random_pick_loop_empty:
  "tokens_size st = 0 \<Longrightarrow> random_pick_loop rnd st k 0 = (None, k)"
  by (simp add: random_pick_loop.simps [of rnd st k 0])

lemma start_selection_refines:
  "random_token_id_that_starts_a_sentence rnd k st = start_selection_spec rnd k st"
proof (cases "tokens_size st = 0")
  case True
  then show ?thesis
    by (simp add: random_token_id_that_starts_a_sentence_def start_selection_spec_def
        random_pick_loop_empty first_capitalized_loop_spec)
next
  case False
  from random_pick_loop_spec [OF False, of 0 10000 rnd k] show ?thesis
    using False
    by (simp add: random_token_id_that_starts_a_sentence_def start_selection_spec_def
        first_capitalized_loop_spec Let_def split: option.splits)
qed

lemma find_Some_mem: "find P xs = Some x \<Longrightarrow> x \<in> set xs"
  by (induction xs) (auto split: if_splits)

lemma start_selection_in_range:
  "tokens_size st \<noteq> 0 \<Longrightarrow> fst (start_selection_spec rnd k st) < tokens_size st"
  by (auto simp: start_selection_spec_def Let_def split: option.splits dest!: find_Some_mem)

lemma takeWhile_before_find:
  "find (\<lambda>x. \<not> P x) xs = Some y \<Longrightarrow> length (takeWhile P xs) < length xs"
  by (induction xs) (auto split: if_splits)

lemma start_selection_calls:
  "snd (start_selection_spec rnd k st) \<le> k + 10000"
proof (cases "tokens_size st = 0")
  case True
  then show ?thesis by (simp add: start_selection_spec_def)
next
  case False
  let ?ds = "map (\<lambda>j. rnd (k + j) mod tokens_size st) [0..<10000]"
  show ?thesis
  proof (cases "find (\<lambda>i. starts_sentence (tokens st ! i)) ?ds")
    case None
    with False show ?thesis by (simp add: start_selection_spec_def Let_def)
  next
    case (Some i)
    from takeWhile_before_find [of "\<lambda>i. \<not> starts_sentence (tokens st ! i)" ?ds i] Some
    have "length (takeWhile (\<lambda>i. \<not> starts_sentence (tokens st ! i)) ?ds) < 10000" by simp
    with False Some show ?thesis by (simp add: start_selection_spec_def Let_def)
  qed
qed

subsection \<open>The walk\<close>

lemma token_id_succs_any:
  assumes "token_id st tok = Inr (n, st')"
  shows "succs st' = succs st \<or> succs st' = succs st @ [[]]"
proof -
  from assms obtain found where f: "hash_find st tok = Inr found"
    by (auto simp: token_id_def split: sum.splits)
  show ?thesis
  proof (cases "0 \<le> found")
    case True
    with f assms show ?thesis by (simp add: token_id_def)
  next
    case False
    from token_id_new [OF f False assms] show ?thesis by simp
  qed
qed

text \<open>
  A rule for the \<open>while\<close> loop of \<open>generate_sentence\<close>: a property \<open>I\<close> of the loop variables
  that holds at the first test and is kept by an iteration that goes on, and a property
  \<open>Q\<close> of the result that follows from \<open>I\<close> at each of the six ways out of the loop.
\<close>

lemma walk_loop_rule:
  assumes init: "I st k out token steps"
    and head: "\<And>st k out token steps. I st k out token steps \<Longrightarrow> \<not> length out + 2 < out_size \<Longrightarrow>
      Q \<lparr>w_out = out, w_state = st, w_rand = k, w_steps = steps, w_outcome = Size_bound\<rparr>"
    and err: "\<And>st k out token steps e. I st k out token steps \<Longrightarrow> length out + 2 < out_size \<Longrightarrow>
      token_id st token = Inl e \<Longrightarrow>
      Q \<lparr>w_out = out, w_state = st, w_rand = k, w_steps = steps + 1, w_outcome = Exited e\<rparr>"
    and oob: "\<And>st k out token steps x y. I st k out token steps \<Longrightarrow> length out + 2 < out_size \<Longrightarrow>
      token_id st token = Inr (x, y) \<Longrightarrow> length (succs y) \<le> x \<Longrightarrow>
      Q \<lparr>w_out = out, w_state = y, w_rand = k, w_steps = steps + 1,
         w_outcome = Exited Out_of_bounds\<rparr>"
    and dead: "\<And>st k out token steps x y. I st k out token steps \<Longrightarrow> length out + 2 < out_size \<Longrightarrow>
      token_id st token = Inr (x, y) \<Longrightarrow> x < length (succs y) \<Longrightarrow> succs y ! x = [] \<Longrightarrow>
      Q \<lparr>w_out = out, w_state = y, w_rand = k, w_steps = steps + 1, w_outcome = Dead_end\<rparr>"
    and full: "\<And>st k out token steps x y n. I st k out token steps \<Longrightarrow> length out + 2 < out_size \<Longrightarrow>
      token_id st token = Inr (x, y) \<Longrightarrow> x < length (succs y) \<Longrightarrow> succs y ! x \<noteq> [] \<Longrightarrow>
      n = succs y ! x ! (rnd k mod length (succs y ! x)) \<Longrightarrow>
      out_size \<le> length out + 1 + length n + 1 \<Longrightarrow>
      Q \<lparr>w_out = out, w_state = y, w_rand = k + 1, w_steps = steps + 1, w_outcome = Size_bound\<rparr>"
    and fin: "\<And>st k out token steps x y n. I st k out token steps \<Longrightarrow> length out + 2 < out_size \<Longrightarrow>
      token_id st token = Inr (x, y) \<Longrightarrow> x < length (succs y) \<Longrightarrow> succs y ! x \<noteq> [] \<Longrightarrow>
      n = succs y ! x ! (rnd k mod length (succs y ! x)) \<Longrightarrow>
      length out + 1 + length n + 1 < out_size \<Longrightarrow> token_ends_a_sentence n \<Longrightarrow>
      Q \<lparr>w_out = out @ '' '' @ n, w_state = y, w_rand = k + 1, w_steps = steps + 1,
         w_outcome = Terminal\<rparr>"
    and cont: "\<And>st k out token steps x y n. I st k out token steps \<Longrightarrow> length out + 2 < out_size \<Longrightarrow>
      token_id st token = Inr (x, y) \<Longrightarrow> x < length (succs y) \<Longrightarrow> succs y ! x \<noteq> [] \<Longrightarrow>
      n = succs y ! x ! (rnd k mod length (succs y ! x)) \<Longrightarrow>
      length out + 1 + length n + 1 < out_size \<Longrightarrow> \<not> token_ends_a_sentence n \<Longrightarrow>
      I y (k + 1) (out @ '' '' @ n) n (steps + 1)"
  shows "Q (walk_loop rnd out_size st k out token steps)"
  using init head err oob dead full fin cont
proof (induction rnd out_size st k out token steps rule: walk_loop.induct)
  case (1 rnd out_size st k out token steps)
  note unf = walk_loop.simps [of rnd out_size st k out token steps]
  note I = "1.prems"(1) and head = "1.prems"(2) and err = "1.prems"(3) and oob = "1.prems"(4)
    and dead = "1.prems"(5) and full = "1.prems"(6) and fin = "1.prems"(7) and cont = "1.prems"(8)
  show ?case
  proof (cases "length out + 2 < out_size")
    case False
    from head [OF I False] False show ?thesis by (simp add: unf)
  next
    case True
    show ?thesis
    proof (cases "token_id st token")
      case (Inl e)
      from err [OF I True Inl] Inl True show ?thesis by (simp add: unf)
    next
      case (Inr b)
      obtain x y where b: "b = (x, y)" by (cases b)
      with Inr have t: "token_id st token = Inr (x, y)" by simp
      let ?n = "succs y ! x ! (rnd k mod length (succs y ! x))"
      show ?thesis
      proof (cases "length (succs y) \<le> x")
        case o: True
        from oob [OF I True t o] o True t show ?thesis by (simp add: unf)
      next
        case False
        then have x: "x < length (succs y)" by simp
        show ?thesis
        proof (cases "succs y ! x = []")
          case d: True
          from dead [OF I True t x d] d True t x show ?thesis by (simp add: unf)
        next
          case ne: False
          show ?thesis
          proof (cases "out_size \<le> length out + 1 + length ?n + 1")
            case s: True
            from full [OF I True t x ne refl s] s True t x ne show ?thesis
              by (simp add: unf Let_def)
          next
            case ns: False
            then have fit: "length out + 1 + length ?n + 1 < out_size" by simp
            show ?thesis
            proof (cases "token_ends_a_sentence ?n")
              case e: True
              from fin [OF I True t x ne refl fit e] e True t x ne ns show ?thesis
                by (simp add: unf Let_def)
            next
              case c: False
              have "Q (walk_loop rnd out_size y (k + 1) (out @ '' '' @ ?n) ?n (steps + 1))"
              proof (rule "1.IH" [OF True Inr b [symmetric] _ refl _ refl refl])
                show "\<not> length (succs y) \<le> x" using x by simp
                show "length (succs y ! x) \<noteq> 0" using ne by simp
                show "\<not> out_size \<le> length out + 1 + length ?n + 1" using ns .
                show "\<not> token_ends_a_sentence ?n" using c .
                show "I y (k + 1) (out @ '' '' @ ?n) ?n (steps + 1)"
                  by (rule cont [OF I True t x ne refl fit c])
              qed (fact head err oob dead full fin cont)+
              with True t x ne ns c show ?thesis by (simp add: unf Let_def)
            qed
          qed
        qed
      qed
    qed
  qed
qed

lemma walk_loop_fits:
  assumes "length out < out_size"
  shows "length (w_out (walk_loop rnd out_size st k out token steps)) < out_size"
  by (rule walk_loop_rule [where I = "\<lambda>st k out token steps. length out < out_size"
        and Q = "\<lambda>r. length (w_out r) < out_size"])
     (use assms in simp_all)

lemma walk_loop_steps:
  assumes "steps \<le> length out" "length out < out_size"
  shows "w_steps (walk_loop rnd out_size st k out token steps) \<le> out_size"
  by (rule walk_loop_rule [where I = "\<lambda>st k out token steps. steps \<le> length out \<and> length out < out_size"
        and Q = "\<lambda>r. w_steps r \<le> out_size"])
     (use assms in simp_all)

lemma walk_loop_steps_by_length:
  assumes "(steps + 1) * L \<le> length out" "length out < out_size"
    and "\<forall>l \<in> set (succs st). \<forall>s \<in> set l. L \<le> length s"
  shows "w_steps (walk_loop rnd out_size st k out token steps) * L \<le> out_size"
proof (rule walk_loop_rule [where
      I = "\<lambda>st k out token steps. (steps + 1) * L \<le> length out \<and> length out < out_size \<and>
            (\<forall>l \<in> set (succs st). \<forall>s \<in> set l. L \<le> length s)"
      and Q = "\<lambda>r. w_steps r * L \<le> out_size"], goal_cases)
  case 1
  from assms show ?case by simp
next
  case (2 st k out token steps)
  then have "steps * L \<le> (steps + 1) * L" by simp
  with 2 show ?case by simp
next
  case (8 st k out token steps x y n)
  from token_id_succs_any [OF 8(3)] 8(1) have b: "\<forall>l \<in> set (succs y). \<forall>s \<in> set l. L \<le> length s"
    by auto
  from 8(4,5,6) have "n \<in> set (succs y ! x)" by simp
  moreover from 8(4) have "succs y ! x \<in> set (succs y)" by simp
  ultimately have "L \<le> length n" using b by blast
  moreover have "(steps + 1 + 1) * L = (steps + 1) * L + L" by (simp add: algebra_simps)
  ultimately show ?case using 8(1,7) b by simp
qed simp_all

lemma last_char_append:
  "last_char (out @ CHR '' '' # n) = (if n = [] then CHR '' '' else last_char n)"
  by (simp add: last_char_def nth_append)

lemma token_ends_a_sentence_append:
  "token_ends_a_sentence (out @ CHR '' '' # n) = token_ends_a_sentence n"
  by (simp add: token_ends_a_sentence_def last_char_append) (simp add: last_char_def)

lemma walk_loop_outcome:
  assumes "\<not> token_ends_a_sentence out"
  shows "w_outcome (walk_loop rnd out_size st k out token steps) = Terminal \<longleftrightarrow>
         token_ends_a_sentence (w_out (walk_loop rnd out_size st k out token steps))"
  by (rule walk_loop_rule [where I = "\<lambda>st k out token steps. \<not> token_ends_a_sentence out"
        and Q = "\<lambda>r. w_outcome r = Terminal \<longleftrightarrow> token_ends_a_sentence (w_out r)"])
     (use assms in \<open>simp_all add: token_ends_a_sentence_append\<close>)

lemma walk_loop_frame:
  assumes wf: "wf_model st0" and cl: "closed_succs st0" and tok: "token \<in> set (tokens st0)"
  shows "w_state (walk_loop rnd out_size st0 k out token steps) = st0"
proof (rule walk_loop_rule [where
      I = "\<lambda>st k out token steps. st = st0 \<and> token \<in> set (tokens st0)"
      and Q = "\<lambda>r. w_state r = st0"], goal_cases)
  case 1
  from tok show ?case by simp
next
  case (4 st k out token steps x y)
  with token_id_known [OF wf, of token x y] show ?case by simp
next
  case (5 st k out token steps x y)
  with token_id_known [OF wf, of token x y] show ?case by simp
next
  case (6 st k out token steps x y n)
  with token_id_known [OF wf, of token x y] show ?case by simp
next
  case (7 st k out token steps x y n)
  with token_id_known [OF wf, of token x y] show ?case by simp
next
  case (8 st k out token steps x y n)
  with token_id_known [OF wf, of token x y] have y: "y = st0" by simp
  from 8(4,5,6) have "n \<in> set (succs y ! x)" by simp
  moreover from 8(4) have "succs y ! x \<in> set (succs y)" by simp
  ultimately have "n \<in> set (tokens st0)" using cl unfolding closed_succs_def y by blast
  with y show ?case by simp
qed simp_all

lemma tokenize_closed:
  assumes "tokenize_and_fill_succs delimiters str init_state = Inr (st, tr)"
  shows "closed_succs st"
  unfolding closed_succs_def
proof
  fix l assume "l \<in> set (succs st)"
  then obtain n where n: "n < length (succs st)" "l = succs st ! n"
    by (auto simp: in_set_conv_nth)
  let ?toks = "map fst (yielded tr)"
  from tokenize_from_init [OF assms] have wf: "wf_model st"
    and tk: "tokens st = first_occurrences ?toks"
    and ed: "edges tr = zip ?toks (tl ?toks)"
    and su: "\<forall>n. n < length (tokens st) \<longrightarrow>
            succs st ! n = map snd (filter (\<lambda>(a, b). a = tokens st ! n) (edges tr))"
    by blast+
  from wf n(1) have "n < length (tokens st)" by (simp add: wf_model_def)
  with su n(2) have "set l \<subseteq> snd ` set (edges tr)" by auto
  also have "\<dots> \<subseteq> set (tl ?toks)" unfolding ed by (auto dest: set_zip_rightD)
  also have "\<dots> \<subseteq> set ?toks" by (cases ?toks) auto
  also have "\<dots> = set (tokens st)" by (simp add: tk)
  finally show "set l \<subseteq> set (tokens st)" .
qed

lemma token_ends_a_sentence_Nil [simp]: "\<not> token_ends_a_sentence []"
  by (simp add: token_ends_a_sentence_def last_char_def)

text \<open>On a model built by the tokenizer from a corpus with at least one token,
  \<open>generate_sentence\<close> leaves the model as it is.\<close>

lemma generate_sentence_frame:
  assumes t: "tokenize_and_fill_succs delimiters str init_state = Inr (st, tr)"
    and ne: "tokens st \<noteq> []"
  shows "w_state (generate_sentence rnd k st out out_size) = st"
proof (cases "out_size = 0")
  case True
  then show ?thesis by (simp add: generate_sentence_def)
next
  case False
  obtain start_id k1 where s: "random_token_id_that_starts_a_sentence rnd k st = (start_id, k1)"
    by (cases "random_token_id_that_starts_a_sentence rnd k st")
  from ne have sz: "tokens_size st \<noteq> 0" by (simp add: tokens_size_def)
  from start_selection_in_range [OF sz, of rnd k] s have "start_id < tokens_size st"
    by (simp add: start_selection_refines)
  then have mem: "tokens st ! start_id \<in> set (tokens st)" by (simp add: tokens_size_def)
  from tokenize_from_init [OF t] have wf: "wf_model st" by simp
  from walk_loop_frame [OF wf tokenize_closed [OF t] mem] False s sz show ?thesis
    by (simp add: generate_sentence_def Let_def)
qed

subsection \<open>One call of \<open>append_to_succs\<close>\<close>


section \<open>Claims\<close>

text \<open>
  Claim C1. Interning is idempotent: when \<open>token_id\<close> has returned an identifier for a
  spelling, a second call with the same spelling returns the same identifier and leaves the
  model as it is, and \<open>hash_find\<close> on the model returns that identifier. This holds in
  every state of the model; the first call returns unless the hash table is full.
\<close>

theorem token_id_idempotent:
  assumes "token_id st s = Inr (n, st1)"
  shows "token_id st1 s = Inr (n, st1) \<and> hash_find st1 s = Inr (int n)"
proof -
  from assms obtain found where f: "hash_find st s = Inr found"
    by (auto simp: token_id_def split: sum.splits)
  show ?thesis
  proof (cases "0 \<le> found")
    case True
    with f assms have "st1 = st" "n = nat found" by (simp_all add: token_id_def)
    with f True show ?thesis by (simp add: token_id_def)
  next
    case False
    from token_id_new [OF f False assms] have "hash_find st1 s = Inr (int n)" by simp
    then show ?thesis using token_id_found [of st1 s "int n"] by simp
  qed
qed

theorem token_id_idempotent_witness:
  "token_id init_state ''Alice'' =
     Inr (0, init_state\<lparr>tokens := [''Alice''], succs := [[]], succs_caps := [0],
                         hash_index := (hash_index init_state)(15824 := 0)\<rparr>) \<and>
   token_id (init_state\<lparr>tokens := [''Alice''], succs := [[]], succs_caps := [0],
                         hash_index := (hash_index init_state)(15824 := 0)\<rparr>) ''Alice'' =
     Inr (0, init_state\<lparr>tokens := [''Alice''], succs := [[]], succs_caps := [0],
                         hash_index := (hash_index init_state)(15824 := 0)\<rparr>) \<and>
   hash_find (init_state\<lparr>tokens := [''Alice''], succs := [[]], succs_caps := [0],
                         hash_index := (hash_index init_state)(15824 := 0)\<rparr>) ''Alice'' = Inr 0"
proof -
  have h: "token_id init_state ''Alice'' =
     Inr (0, init_state\<lparr>tokens := [''Alice''], succs := [[]], succs_caps := [0],
                         hash_index := (hash_index init_state)(15824 := 0)\<rparr>)"
    by (simp add: token_id_def hash_find_def hash_insert_def hash_str_def HASH_SIZE_def
        init_state_def hash_init_def ensure_tokens_capacity_def tokens_size_def
        hash_find_loop.simps hash_insert_loop.simps)
  show ?thesis using h token_id_idempotent [OF h] by simp
qed

text \<open>
  Claim C2. Interning is injective and dense. After the corpus has been tokenized from the
  initial model, the array of spellings holds the distinct tokens in the order of their
  first occurrence, so identifier \<open>n\<close> is the \<open>n\<close>-th distinct spelling; every identifier
  returned during the run indexes its own spelling in the final array; two yielded tokens
  have the same identifier exactly when they have the same spelling; the identifiers
  returned are exactly \<open>0, ..., tokens_size - 1\<close>; and the lookup of each stored spelling
  still gives its index.
\<close>

theorem interning_injective_dense:
  assumes "tokenize_and_fill_succs delimiters str init_state = Inr (st, tr)"
  shows "tokens st = first_occurrences (map fst (yielded tr)) \<and> distinct (tokens st) \<and>
         (\<forall>s n. (s, n) \<in> set (yielded tr) \<longrightarrow> n < length (tokens st) \<and> tokens st ! n = s) \<and>
         (\<forall>s1 n1 s2 n2. (s1, n1) \<in> set (yielded tr) \<longrightarrow> (s2, n2) \<in> set (yielded tr) \<longrightarrow>
            (s1 = s2 \<longleftrightarrow> n1 = n2)) \<and>
         snd ` set (yielded tr) = {0..<length (tokens st)} \<and>
         (\<forall>n. n < length (tokens st) \<longrightarrow> hash_find st (tokens st ! n) = Inr (int n))"
proof -
  from tokenize_from_init [OF assms] have wf: "wf_model st"
    and tk: "tokens st = first_occurrences (map fst (yielded tr))"
    and ids0: "\<forall>s n. (s, n) \<in> set (yielded tr) \<longrightarrow> n < length (tokens st) \<and> tokens st ! n = s"
    by blast+
  have ids: "n < length (tokens st) \<and> tokens st ! n = s" if "(s, n) \<in> set (yielded tr)" for s n
    using ids0 that by blast
  from wf have d: "distinct (tokens st)" by (simp add: wf_model_def)
  have inj: "s1 = s2 \<longleftrightarrow> n1 = n2"
    if "(s1, n1) \<in> set (yielded tr)" "(s2, n2) \<in> set (yielded tr)" for s1 n1 s2 n2
    using ids [OF that(1)] ids [OF that(2)] d nth_eq_iff_index_eq [of "tokens st" n1 n2] by auto
  have dense: "snd ` set (yielded tr) = {0..<length (tokens st)}"
  proof (intro equalityI subsetI)
    fix n assume "n \<in> snd ` set (yielded tr)"
    then obtain s where "(s, n) \<in> set (yielded tr)" by force
    from ids [OF this] show "n \<in> {0..<length (tokens st)}" by simp
  next
    fix n assume "n \<in> {0..<length (tokens st)}"
    then have n: "n < length (tokens st)" by simp
    then have "tokens st ! n \<in> set (tokens st)" by simp
    then have "tokens st ! n \<in> fst ` set (yielded tr)" by (simp add: tk)
    then obtain m where m: "(tokens st ! n, m) \<in> set (yielded tr)" by force
    from ids [OF m] d n have "m = n" using nth_eq_iff_index_eq [of "tokens st" m n] by simp
    with m show "n \<in> snd ` set (yielded tr)" by force
  qed
  have "\<forall>n. n < length (tokens st) \<longrightarrow> hash_find st (tokens st ! n) = Inr (int n)"
    using hash_find_hit [OF wf] by simp
  with tk d ids0 inj dense show ?thesis by blast
qed

theorem interning_injective_dense_witness:
  "tokenize_and_fill_succs '' '' ''a b a'' init_state =
     Inr (\<lparr>tokens = [''a'', ''b''], tokens_cap = 32768,
            hash_index = (\<lambda>_. - 1)(177604 := 0, 177607 := 1),
            succs = [[''b''], [''a'']], succs_caps = [4, 4]\<rparr>,
          [Yield ''a'' 0, Yield ''b'' 1, Edge ''a'' ''b'', Yield ''a'' 0, Edge ''b'' ''a'']) \<and>
   first_occurrences [''a'', ''b'', ''a''] = [''a'', ''b''] \<and>
   hash_find \<lparr>tokens = [''a'', ''b''], tokens_cap = 32768,
            hash_index = (\<lambda>_. - 1)(177604 := 0, 177607 := 1),
            succs = [[''b''], [''a'']], succs_caps = [4, 4]\<rparr> ''b'' = Inr 1"
proof -
  have h: "tokenize_and_fill_succs '' '' ''a b a'' init_state =
     Inr (\<lparr>tokens = [''a'', ''b''], tokens_cap = 32768,
            hash_index = (\<lambda>_. - 1)(177604 := 0, 177607 := 1),
            succs = [[''b''], [''a'']], succs_caps = [4, 4]\<rparr>,
          [Yield ''a'' 0, Yield ''b'' 1, Edge ''a'' ''b'', Yield ''a'' 0, Edge ''b'' ''a''])"
    by (simp add: run_simps)
  note c = interning_injective_dense [OF h]
  note c1 = c [THEN conjunct1]
  note c6 = c [THEN conjunct2, THEN conjunct2, THEN conjunct2, THEN conjunct2, THEN conjunct2,
      rule_format, of 1]
  show ?thesis using h c1 c6 by simp
qed

text \<open>
  Claim C3. Successor lists are an exact, order-preserving, non-deduplicated record of the
  observed consecutive pairs. After the corpus has been tokenized from the initial model,
  the calls of \<open>append_to_succs\<close> were made for the consecutive pairs of the token sequence,
  in order, and the successor list of every token is the sequence of the second elements
  of the pairs that start with it, in the order of the pairs and with repetitions; a token
  that starts no pair has the empty list.
\<close>

theorem successor_lists_exact:
  assumes "tokenize_and_fill_succs delimiters str init_state = Inr (st, tr)"
  shows "edges tr = zip (map fst (yielded tr)) (tl (map fst (yielded tr))) \<and>
         length (succs st) = length (tokens st) \<and>
         (\<forall>n. n < length (tokens st) \<longrightarrow>
            succs st ! n = map snd (filter (\<lambda>(a, b). a = tokens st ! n) (edges tr))) \<and>
         (\<forall>n. n < length (tokens st) \<longrightarrow> tokens st ! n \<notin> fst ` set (edges tr) \<longrightarrow>
            succs st ! n = [])"
proof -
  from tokenize_from_init [OF assms] have wf: "wf_model st"
    and ed: "edges tr = zip (map fst (yielded tr)) (tl (map fst (yielded tr)))"
    and su: "\<forall>n. n < length (tokens st) \<longrightarrow>
            succs st ! n = map snd (filter (\<lambda>(a, b). a = tokens st ! n) (edges tr))"
    by blast+
  have "succs st ! n = []" if n: "n < length (tokens st)" "tokens st ! n \<notin> fst ` set (edges tr)" for n
  proof -
    from n(2) have "filter (\<lambda>(a, b). a = tokens st ! n) (edges tr) = []"
      by (force simp: filter_empty_conv)
    with su n(1) show ?thesis by simp
  qed
  moreover from wf have "length (succs st) = length (tokens st)" by (simp add: wf_model_def)
  ultimately show ?thesis using ed su by blast
qed

theorem successor_lists_exact_witness:
  "tokenize_and_fill_succs '' '' ''A B A C A B D'' init_state =
     Inr (\<lparr>tokens = [''A'', ''B'', ''C'', ''D''], tokens_cap = 32768,
            hash_index = (\<lambda>_. - 1)(177636 := 0, 177639 := 1, 177638 := 2, 177633 := 3),
            succs = [[''B'', ''C'', ''B''], [''A'', ''D''], [''A''], []],
            succs_caps = [4, 4, 4, 0]\<rparr>,
          [Yield ''A'' 0, Yield ''B'' 1, Edge ''A'' ''B'', Yield ''A'' 0, Edge ''B'' ''A'',
           Yield ''C'' 2, Edge ''A'' ''C'', Yield ''A'' 0, Edge ''C'' ''A'',
           Yield ''B'' 1, Edge ''A'' ''B'', Yield ''D'' 3, Edge ''B'' ''D'']) \<and>
   map snd (filter (\<lambda>(a, b). a = ''A'')
     [(''A'', ''B''), (''B'', ''A''), (''A'', ''C''), (''C'', ''A''), (''A'', ''B''), (''B'', ''D'')]) =
     [''B'', ''C'', ''B''] \<and>
   ''D'' \<notin> fst ` set [(''A'', ''B''), (''B'', ''A''), (''A'', ''C''), (''C'', ''A''), (''A'', ''B''),
     (''B'', ''D'')]"
proof -
  have h: "tokenize_and_fill_succs '' '' ''A B A C A B D'' init_state =
     Inr (\<lparr>tokens = [''A'', ''B'', ''C'', ''D''], tokens_cap = 32768,
            hash_index = (\<lambda>_. - 1)(177636 := 0, 177639 := 1, 177638 := 2, 177633 := 3),
            succs = [[''B'', ''C'', ''B''], [''A'', ''D''], [''A''], []],
            succs_caps = [4, 4, 4, 0]\<rparr>,
          [Yield ''A'' 0, Yield ''B'' 1, Edge ''A'' ''B'', Yield ''A'' 0, Edge ''B'' ''A'',
           Yield ''C'' 2, Edge ''A'' ''C'', Yield ''A'' 0, Edge ''C'' ''A'',
           Yield ''B'' 1, Edge ''A'' ''B'', Yield ''D'' 3, Edge ''B'' ''D''])"
    by (simp add: run_simps)
  note c = successor_lists_exact [OF h]
  note c3 = c [THEN conjunct2, THEN conjunct2, THEN conjunct1, rule_format, of 0]
  note c4 = c [THEN conjunct2, THEN conjunct2, THEN conjunct2, rule_format, of 3]
  show ?thesis using h c3 c4 by simp
qed



text \<open>
  Claim C5 says that \<open>generate_sentence\<close> never modifies the model, the empty vocabulary
  included. The code looks the current token up with \<open>token_id\<close>, which interns what it
  does not find. On a model built from a corpus (lemma \<open>generate_sentence_frame\<close>) every
  spelling it looks up is found and the model stays as it is; with the empty vocabulary
  the token is the empty string, which is not found: the call makes it token 0. The
  theorem evaluates the call on the model built from a corpus without tokens.
\<close>

theorem generate_sentence_empty_vocabulary:
  "tokenize_and_fill_succs [CHR '' '', CHR 0x0A, CHR 0x0D] [CHR '' '', CHR 0x0A] init_state =
     Inr (init_state, []) \<and>
   tokens init_state = [] \<and>
   generate_sentence (\<lambda>_. 0) 0 init_state [] 4096 =
     \<lparr>w_out = [],
      w_state = \<lparr>tokens = [[]], tokens_cap = 32768, hash_index = (\<lambda>_. - 1)(5381 := 0),
                 succs = [[]], succs_caps = [0]\<rparr>,
      w_rand = 0, w_steps = 1, w_outcome = Dead_end\<rparr>"
  by (simp add: run_simps walk_simps)

text \<open>
  Claim C6. \<open>generate_sentence\<close> never overflows the caller's buffer. With \<open>out_size = 0\<close>
  the buffer is left as it was. Otherwise the string left in the buffer is shorter than
  \<open>out_size\<close>, so the string and its terminator fit; every string the buffer held on the
  way is a prefix of it, since the function only appends.
\<close>

theorem generate_sentence_fits:
  "(out_size = 0 \<longrightarrow> w_out (generate_sentence rnd k st out out_size) = out) \<and>
   (0 < out_size \<longrightarrow> length (w_out (generate_sentence rnd k st out out_size)) < out_size)"
proof (cases "out_size = 0")
  case True
  then show ?thesis by (simp add: generate_sentence_def)
next
  case False
  obtain start_id k1 where s: "random_token_id_that_starts_a_sentence rnd k st = (start_id, k1)"
    by (cases "random_token_id_that_starts_a_sentence rnd k st")
  define token where "token = (if tokens_size st \<noteq> 0 then tokens st ! start_id else [])"
  have l: "length (take (out_size - 1) token) < out_size" using False by simp
  have "length (w_out (generate_sentence rnd k st out out_size)) < out_size"
    using False s l walk_loop_fits [OF l, of rnd st k1 token 0]
    by (simp add: generate_sentence_def Let_def token_def)
  with False show ?thesis by simp
qed

theorem generate_sentence_fits_witness:
  "(0 :: nat) < 6 \<and>
   w_out (generate_sentence (\<lambda>_. 0) 0
     \<lparr>tokens = [''A'', ''B'', ''C'', ''D''], tokens_cap = 32768,
      hash_index = (\<lambda>_. - 1)(177636 := 0, 177639 := 1, 177638 := 2, 177633 := 3),
      succs = [[''B'', ''C'', ''B''], [''A'', ''D''], [''A''], []],
      succs_caps = [4, 4, 4, 0]\<rparr> [] 6) = ''A B'' \<and>
   length ''A B'' < 6 \<and>
   w_out (generate_sentence (\<lambda>_. 0) 0
     \<lparr>tokens = [''A'', ''B'', ''C'', ''D''], tokens_cap = 32768,
      hash_index = (\<lambda>_. - 1)(177636 := 0, 177639 := 1, 177638 := 2, 177633 := 3),
      succs = [[''B'', ''C'', ''B''], [''A'', ''D''], [''A''], []],
      succs_caps = [4, 4, 4, 0]\<rparr> ''xyz'' 0) = ''xyz''"
proof -
  let ?S = "\<lparr>tokens = [''A'', ''B'', ''C'', ''D''], tokens_cap = 32768,
      hash_index = (\<lambda>_. - 1)(177636 := 0, 177639 := 1, 177638 := 2, 177633 := 3),
      succs = [[''B'', ''C'', ''B''], [''A'', ''D''], [''A''], []],
      succs_caps = [4, 4, 4, 0]\<rparr>"
  have h: "w_out (generate_sentence (\<lambda>_. 0) 0 ?S [] 6) = ''A B''"
    by (simp add: run_simps walk_simps)
  from generate_sentence_fits [of 6 "\<lambda>_. 0" 0 ?S "[]"]
  have a: "length (w_out (generate_sentence (\<lambda>_. 0) 0 ?S [] 6)) < 6" by simp
  from generate_sentence_fits [of 0 "\<lambda>_. 0" 0 ?S "''xyz''"]
  have b: "w_out (generate_sentence (\<lambda>_. 0) 0 ?S ''xyz'' 0) = ''xyz''" by simp
  from a b show ?thesis unfolding h by simp
qed

text \<open>
  Claim C7. A walk always terminates (the model of the loop is a total function, by the
  measure \<open>out_size - strlen(out)\<close>), and the body of the loop is entered at most
  \<open>out_size\<close> times, whatever the model holds and whatever \<open>rand()\<close> returns. When the
  vocabulary is not empty and every stored spelling has at least \<open>L > 0\<close> bytes, the body is
  entered at most \<open>out_size / L\<close> times.
\<close>

theorem generate_sentence_steps_bounded:
  "w_steps (generate_sentence rnd k st out out_size) \<le> out_size \<and>
   (0 < L \<longrightarrow> tokens st \<noteq> [] \<longrightarrow> (\<forall>s \<in> set (tokens st). L \<le> length s) \<longrightarrow>
    (\<forall>l \<in> set (succs st). \<forall>s \<in> set l. L \<le> length s) \<longrightarrow>
    w_steps (generate_sentence rnd k st out out_size) \<le> out_size div L)"
proof (cases "out_size = 0")
  case True
  then show ?thesis by (simp add: generate_sentence_def)
next
  case False
  obtain start_id k1 where s: "random_token_id_that_starts_a_sentence rnd k st = (start_id, k1)"
    by (cases "random_token_id_that_starts_a_sentence rnd k st")
  define token where "token = (if tokens_size st \<noteq> 0 then tokens st ! start_id else [])"
  let ?out1 = "take (out_size - 1) token"
  have g: "generate_sentence rnd k st out out_size =
      (if token_ends_a_sentence token
       then \<lparr>w_out = ?out1, w_state = st, w_rand = k1, w_steps = 0, w_outcome = Terminal\<rparr>
       else walk_loop rnd out_size st k1 ?out1 token 0)"
    using False s by (simp add: generate_sentence_def Let_def token_def)
  have l: "length ?out1 < out_size" using False by simp
  have a: "w_steps (generate_sentence rnd k st out out_size) \<le> out_size"
    using walk_loop_steps [OF _ l, of 0 rnd st k1 token] by (simp add: g)
  have b: "w_steps (generate_sentence rnd k st out out_size) \<le> out_size div L"
    if L: "0 < L" and ne: "tokens st \<noteq> []" and tl: "\<forall>s \<in> set (tokens st). L \<le> length s"
      and sl: "\<forall>l \<in> set (succs st). \<forall>s \<in> set l. L \<le> length s"
  proof -
    from ne have sz: "tokens_size st \<noteq> 0" by (simp add: tokens_size_def)
    from start_selection_in_range [OF sz, of rnd k] s have "start_id < tokens_size st"
      by (simp add: start_selection_refines)
    then have "token \<in> set (tokens st)" using sz by (simp add: token_def tokens_size_def)
    with tl have lt: "L \<le> length token" by blast
    have "w_steps (generate_sentence rnd k st out out_size) * L \<le> out_size"
    proof (cases "length token \<le> out_size - 1")
      case True
      then have "(0 + 1) * L \<le> length ?out1" using lt by simp
      from walk_loop_steps_by_length [OF this l sl, of rnd k1 token] show ?thesis
        by (simp add: g)
    next
      case False
      then have "\<not> length ?out1 + 2 < out_size" by simp
      then have "w_steps (walk_loop rnd out_size st k1 ?out1 token 0) = 0"
        by (subst walk_loop.simps) simp
      then show ?thesis by (simp add: g)
    qed
    with L show ?thesis by (simp add: less_eq_div_iff_mult_less_eq)
  qed
  from a b show ?thesis by blast
qed

theorem generate_sentence_steps_bounded_witness:
  "w_steps (generate_sentence (\<lambda>_. 0) 0
     \<lparr>tokens = [''A'', ''B'', ''C'', ''D''], tokens_cap = 32768,
      hash_index = (\<lambda>_. - 1)(177636 := 0, 177639 := 1, 177638 := 2, 177633 := 3),
      succs = [[''B'', ''C'', ''B''], [''A'', ''D''], [''A''], []],
      succs_caps = [4, 4, 4, 0]\<rparr> [] 6) = 2 \<and>
   (2 :: nat) \<le> 6 div 1 \<and> (0 :: nat) < 1 \<and>
   list_all (\<lambda>s. 1 \<le> length s) [''A'', ''B'', ''C'', ''D''] \<and>
   list_all (list_all (\<lambda>s. 1 \<le> length s)) [[''B'', ''C'', ''B''], [''A'', ''D''], [''A''], []]"
proof -
  let ?S = "\<lparr>tokens = [''A'', ''B'', ''C'', ''D''], tokens_cap = 32768,
      hash_index = (\<lambda>_. - 1)(177636 := 0, 177639 := 1, 177638 := 2, 177633 := 3),
      succs = [[''B'', ''C'', ''B''], [''A'', ''D''], [''A''], []],
      succs_caps = [4, 4, 4, 0]\<rparr>"
  have h: "w_steps (generate_sentence (\<lambda>_. 0) 0 ?S [] 6) = 2"
    by (simp add: run_simps walk_simps)
  have p: "\<forall>s \<in> set [''A'', ''B'', ''C'', ''D'']. 1 \<le> length s"
    "\<forall>l \<in> set [[''B'', ''C'', ''B''], [''A'', ''D''], [''A''], []]. \<forall>s \<in> set l. 1 \<le> length s"
    by simp_all
  from generate_sentence_steps_bounded [of "\<lambda>_. 0" 0 ?S "[]" 6 1] p
  have "w_steps (generate_sentence (\<lambda>_. 0) 0 ?S [] 6) \<le> 6 div 1" by simp
  with h p show ?thesis by simp
qed

text \<open>
  Claim C8. Start selection. \<open>random_token_id_that_starts_a_sentence\<close> computes what the
  specification describes: the first of at most 10000 draws \<open>rand() % tokens_size\<close> whose
  spelling begins with an uppercase letter; when none does, the first identifier in
  ascending order whose spelling does; when there is none, 0; and 0 without any draw when
  the vocabulary is empty. It makes at most 10000 calls of \<open>rand()\<close>, and its result is an
  index into the array of spellings unless the vocabulary is empty. (That the draws are
  uniform is a property of \<open>rand()\<close>, which the model takes as a given sequence.)
\<close>

theorem start_selection_correct:
  "random_token_id_that_starts_a_sentence rnd k st = start_selection_spec rnd k st \<and>
   snd (random_token_id_that_starts_a_sentence rnd k st) \<le> k + 10000 \<and>
   (tokens_size st = 0 \<or> fst (random_token_id_that_starts_a_sentence rnd k st) < tokens_size st)"
  using start_selection_refines [of rnd k st] start_selection_calls [of rnd k st]
    start_selection_in_range [of st rnd k]
  by auto

text \<open>
  Claim C9. Tokenizing \<open>"Alice saw Bob. Bob ran!"\<close> with the delimiters space, LF and CR
  from the initial model: \<open>strtok_r\<close> yields the five tokens in order, \<open>token_id\<close> gives
  them the identifiers 0 to 4 (the first token too, which has no predecessor),
  \<open>append_to_succs\<close> is called for exactly four pairs, in order, and the last token is left
  with an empty successor list.
\<close>

theorem tokenize_example:
  "map_sum (\<lambda>e. e) (\<lambda>(st, tr). (tokens st, succs st, map fst (yielded tr), edges tr, tr))
     (tokenize_and_fill_succs [CHR '' '', CHR 0x0A, CHR 0x0D] ''Alice saw Bob. Bob ran!'' init_state) =
   Inr ([''Alice'', ''saw'', ''Bob.'', ''Bob'', ''ran!''],
        [[''saw''], [''Bob.''], [''Bob''], [''ran!''], []],
        [''Alice'', ''saw'', ''Bob.'', ''Bob'', ''ran!''],
        [(''Alice'', ''saw''), (''saw'', ''Bob.''), (''Bob.'', ''Bob''), (''Bob'', ''ran!'')],
        [Yield ''Alice'' 0, Yield ''saw'' 1, Edge ''Alice'' ''saw'', Yield ''Bob.'' 2,
         Edge ''saw'' ''Bob.'', Yield ''Bob'' 3, Edge ''Bob.'' ''Bob'', Yield ''ran!'' 4,
         Edge ''Bob'' ''ran!''])"
  by (simp add: run_simps)

text \<open>
  Claim C10, as the code has it. \<open>generate_sentence\<close> returns the buffer and nothing else;
  the way the walk ended is not reported. When \<open>out_size\<close> is positive and exceeds the
  length of every token spelling, so that the start token is copied whole, the string in
  the buffer ends in \<open>.\<close>, \<open>?\<close> or \<open>!\<close> exactly when the walk stopped at a token that ends
  a sentence: the test \<open>ends_with_char\<close> of the driver tells that outcome from every other.
\<close>

theorem last_char_tells_terminal:
  assumes "0 < out_size" and "\<forall>s \<in> set (tokens st). length s < out_size"
  shows "w_outcome (generate_sentence rnd k st out out_size) = Terminal \<longleftrightarrow>
         ends_with_char (w_out (generate_sentence rnd k st out out_size)) CHR ''.'' \<or>
         ends_with_char (w_out (generate_sentence rnd k st out out_size)) CHR ''?'' \<or>
         ends_with_char (w_out (generate_sentence rnd k st out out_size)) CHR ''!''"
proof -
  obtain start_id k1 where s: "random_token_id_that_starts_a_sentence rnd k st = (start_id, k1)"
    by (cases "random_token_id_that_starts_a_sentence rnd k st")
  define token where "token = (if tokens_size st \<noteq> 0 then tokens st ! start_id else [])"
  have "length token < out_size"
  proof (cases "tokens_size st = 0")
    case True
    with assms(1) show ?thesis by (simp add: token_def)
  next
    case False
    from start_selection_in_range [OF False, of rnd k] s have "start_id < tokens_size st"
      by (simp add: start_selection_refines)
    then have "token \<in> set (tokens st)" using False by (simp add: token_def tokens_size_def)
    with assms(2) show ?thesis by blast
  qed
  then have t: "take (out_size - 1) token = token" by simp
  have g: "generate_sentence rnd k st out out_size =
      (if token_ends_a_sentence token
       then \<lparr>w_out = token, w_state = st, w_rand = k1, w_steps = 0, w_outcome = Terminal\<rparr>
       else walk_loop rnd out_size st k1 token token 0)"
    using assms(1) s t by (simp add: generate_sentence_def Let_def token_def)
  have e: "\<And>b. token_ends_a_sentence b \<longleftrightarrow>
      ends_with_char b CHR ''.'' \<or> ends_with_char b CHR ''?'' \<or> ends_with_char b CHR ''!''"
    by (simp add: token_ends_a_sentence_def ends_with_char_def Let_def)
  show ?thesis
  proof (cases "token_ends_a_sentence token")
    case True
    then show ?thesis unfolding e [symmetric] by (simp add: g)
  next
    case False
    from walk_loop_outcome [OF False, of rnd out_size st k1 token 0] False show ?thesis
      unfolding e [symmetric] by (simp add: g)
  qed
qed

theorem last_char_tells_terminal_witness:
  "(0 :: nat) < 6 \<and> list_all (\<lambda>s. length s < 6) [''Ab.'', ''Ab''] \<and>
   generate_sentence (\<lambda>_. 0) 0
     \<lparr>tokens = [''Ab.'', ''Ab''], tokens_cap = 32768,
      hash_index = (\<lambda>_. - 1)(504920 := 0, 94737 := 1),
      succs = [[''Ab''], []], succs_caps = [4, 0]\<rparr> [] 6 =
     \<lparr>w_out = ''Ab.'',
      w_state = \<lparr>tokens = [''Ab.'', ''Ab''], tokens_cap = 32768,
                 hash_index = (\<lambda>_. - 1)(504920 := 0, 94737 := 1),
                 succs = [[''Ab''], []], succs_caps = [4, 0]\<rparr>,
      w_rand = 1, w_steps = 0, w_outcome = Terminal\<rparr> \<and>
   ends_with_char ''Ab.'' CHR ''.''"
proof -
  let ?S = "\<lparr>tokens = [''Ab.'', ''Ab''], tokens_cap = 32768,
      hash_index = (\<lambda>_. - 1)(504920 := 0, 94737 := 1),
      succs = [[''Ab''], []], succs_caps = [4, 0]\<rparr>"
  have h: "generate_sentence (\<lambda>_. 0) 0 ?S [] 6 =
     \<lparr>w_out = ''Ab.'', w_state = ?S, w_rand = 1, w_steps = 0, w_outcome = Terminal\<rparr>"
    by (simp add: run_simps walk_simps)
  have p: "\<forall>s \<in> set (tokens ?S). length s < 6" by simp
  from last_char_tells_terminal [OF _ p, of "\<lambda>_. 0" 0 "[]"]
  have "ends_with_char ''Ab.'' CHR ''.'' \<or> ends_with_char ''Ab.'' CHR ''?'' \<or>
      ends_with_char ''Ab.'' CHR ''!''"
    unfolding h by simp
  then have "ends_with_char ''Ab.'' CHR ''.''" by (simp add: walk_simps)
  with h show ?thesis by simp
qed

text \<open>
  Claim C10 as it is stated fails: nothing that \<open>generate_sentence\<close> gives back tells how the
  walk ended. On the model built from \<open>"Ab. Ab"\<close> and with a buffer of 3 bytes, the walk that
  starts at \<open>Ab.\<close> stops at a terminal token and the walk that starts at \<open>Ab\<close> stops for
  lack of room; both leave the string \<open>Ab\<close> in the buffer and the model as it was.
\<close>

theorem walk_outcome_not_reported_counterexample:
  "tokenize_and_fill_succs '' '' ''Ab. Ab'' init_state =
     Inr (\<lparr>tokens = [''Ab.'', ''Ab''], tokens_cap = 32768,
            hash_index = (\<lambda>_. - 1)(504920 := 0, 94737 := 1),
            succs = [[''Ab''], []], succs_caps = [4, 0]\<rparr>,
          [Yield ''Ab.'' 0, Yield ''Ab'' 1, Edge ''Ab.'' ''Ab'']) \<and>
   generate_sentence (\<lambda>_. 0) 0
     \<lparr>tokens = [''Ab.'', ''Ab''], tokens_cap = 32768,
      hash_index = (\<lambda>_. - 1)(504920 := 0, 94737 := 1),
      succs = [[''Ab''], []], succs_caps = [4, 0]\<rparr> [] 3 =
     \<lparr>w_out = ''Ab'',
      w_state = \<lparr>tokens = [''Ab.'', ''Ab''], tokens_cap = 32768,
                 hash_index = (\<lambda>_. - 1)(504920 := 0, 94737 := 1),
                 succs = [[''Ab''], []], succs_caps = [4, 0]\<rparr>,
      w_rand = 1, w_steps = 0, w_outcome = Terminal\<rparr> \<and>
   generate_sentence (\<lambda>_. 1) 0
     \<lparr>tokens = [''Ab.'', ''Ab''], tokens_cap = 32768,
      hash_index = (\<lambda>_. - 1)(504920 := 0, 94737 := 1),
      succs = [[''Ab''], []], succs_caps = [4, 0]\<rparr> [] 3 =
     \<lparr>w_out = ''Ab'',
      w_state = \<lparr>tokens = [''Ab.'', ''Ab''], tokens_cap = 32768,
                 hash_index = (\<lambda>_. - 1)(504920 := 0, 94737 := 1),
                 succs = [[''Ab''], []], succs_caps = [4, 0]\<rparr>,
      w_rand = 1, w_steps = 0, w_outcome = Size_bound\<rparr>"
  by (simp add: run_simps walk_simps)


end
